theory Spec2Isabelle
  imports Main "HOL-Library.Char_ord" "HOL-Library.List_Lexorder"
begin

section \<open>Data model\<close>

text \<open>
  A doit task, restricted to the attributes that \<^verbatim>\<open>doit_graph.py\<close> reads.
  \<^verbatim>\<open>subtask_of\<close> is \<^verbatim>\<open>None\<close> or a string; \<^verbatim>\<open>file_dep\<close> is a Python set, kept
  here as a list in some iteration order.
\<close>

record task =
  name :: string
  has_subtask :: bool
  subtask_of :: "string option"
  task_dep :: "string list"
  setup_tasks :: "string list"
  file_dep :: "string list"
  targets :: "string list"

text \<open>
  \<^verbatim>\<open>control.tasks\<close> is the dictionary that doit's \<^verbatim>\<open>TaskControl\<close> builds from the
  task list, keyed by each task's \<^verbatim>\<open>name\<close>. The registry is the list of its values in
  insertion order; a lookup finds the task carrying the key as its name. \<^verbatim>\<open>TaskControl\<close>
  refuses a task list in which a name is repeated, so the names of a registry are
  distinct; for a list with a repeated name the lookup takes the first task.
\<close>

type_synonym registry = "task list"

definition tasks_get :: "registry \<Rightarrow> string \<Rightarrow> task option" where
  "tasks_get reg k = find (\<lambda>t. name t = k) reg"

definition tasks_keys :: "registry \<Rightarrow> string list" where
  "tasks_keys reg = remdups (map name reg)"

datatype error = KeyError string | TypeError

text \<open>Python truthiness of an optional string: \<^verbatim>\<open>None\<close> and \<^verbatim>\<open>""\<close> are falsy.\<close>

fun truthy :: "string option \<Rightarrow> bool" where
  "truthy None = False"
| "truthy (Some s) = (s \<noteq> [])"

subsection \<open>The pygraphviz graph\<close>

text \<open>
  \<^verbatim>\<open>AGraph(strict=False, directed=True)\<close>: a directed multigraph. Nodes carry the
  \<^verbatim>\<open>peripheries\<close> attribute when it was set, edges carry \<^verbatim>\<open>arrowhead\<close> and, when set,
  \<^verbatim>\<open>label\<close>. Nodes and edges are kept in insertion order. The default node attributes
  (\<^verbatim>\<open>color\<close> and \<^verbatim>\<open>style\<close>) are the same constants in every run and are left out, and
  so is the serialisation to the dot file.
\<close>

record gnode =
  node_name :: string
  peripheries :: "string option"

record edge =
  source :: string
  sink :: string
  arrowhead :: string
  label :: "string option"

record AGraph =
  rankdir :: "string option"
  nodes :: "gnode list"
  edges :: "edge list"

definition AGraph_empty :: AGraph where
  "AGraph_empty = \<lparr>rankdir = None, nodes = [], edges = []\<rparr>"

definition has_node :: "AGraph \<Rightarrow> string \<Rightarrow> bool" where
  "has_node g n = (n \<in> set (map node_name (nodes g)))"

text \<open>
  \<^verbatim>\<open>AGraph.add_node(n, **attr)\<close>: finds the node or creates it, then updates its
  attributes with the ones given.
\<close>

definition AGraph_add_node :: "AGraph \<Rightarrow> string \<Rightarrow> string option \<Rightarrow> AGraph" where
  "AGraph_add_node g n per =
     (if has_node g n
      then (case per of
              None \<Rightarrow> g
            | Some p \<Rightarrow> g\<lparr>nodes := map (\<lambda>v. if node_name v = n then v\<lparr>peripheries := Some p\<rparr> else v)
                                     (nodes g)\<rparr>)
      else g\<lparr>nodes := nodes g @ [\<lparr>node_name = n, peripheries = per\<rparr>]\<rparr>)"

text \<open>
  Setting the \<^verbatim>\<open>label\<close> attribute goes through pygraphviz's \<^verbatim>\<open>agsafeset_label\<close>: a value
  that starts with \<^verbatim>\<open><\<close> and ends with \<^verbatim>\<open>>\<close> is stored as an HTML string, without these
  two characters, and that is what reading the attribute gives back. Every other value is
  stored as it is. The \<^verbatim>\<open>label\<close> field of an edge holds the value as it is read back.
\<close>

definition agsafeset_label :: "string \<Rightarrow> string" where
  "agsafeset_label val =
     (if val \<noteq> [] \<and> hd val = CHR ''<'' \<and> last val = CHR ''>'' then butlast (tl val) else val)"

text \<open>
  \<^verbatim>\<open>AGraph.add_edge(u, v, **attr)\<close>: creates the end points that are not nodes yet, then
  a new edge (the graph is not strict, so a parallel edge is a second edge) and sets its
  attributes.
\<close>

definition AGraph_add_edge :: "AGraph \<Rightarrow> string \<Rightarrow> string \<Rightarrow> string \<Rightarrow> string option \<Rightarrow> AGraph" where
  "AGraph_add_edge g u v ah lbl =
     (let g1 = AGraph_add_node g u None;
          g2 = AGraph_add_node g1 v None
      in g2\<lparr>edges := edges g2 @ [\<lparr>source = u, sink = v, arrowhead = ah,
                                   label = map_option agsafeset_label lbl\<rparr>]\<rparr>)"

text \<open>\<^verbatim>\<open>AGraph.get_edge(u, v)\<close>: an edge from u to v, \<^verbatim>\<open>KeyError\<close> when there is none.\<close>

definition is_edge :: "string \<Rightarrow> string \<Rightarrow> edge \<Rightarrow> bool" where
  "is_edge u v e = (source e = u \<and> sink e = v)"

definition AGraph_get_edge :: "AGraph \<Rightarrow> string \<Rightarrow> string \<Rightarrow> error + edge" where
  "AGraph_get_edge g u v =
     (case find (is_edge u v) (edges g) of
        None \<Rightarrow> Inl (KeyError (u @ '' '' @ v))
      | Some e \<Rightarrow> Inr e)"

text \<open>Assigning \<^verbatim>\<open>edge.attr["label"]\<close> on the edge that \<^verbatim>\<open>get_edge\<close> returned.\<close>

fun set_label :: "string \<Rightarrow> string \<Rightarrow> string \<Rightarrow> edge list \<Rightarrow> edge list" where
  "set_label u v l [] = []"
| "set_label u v l (e # es) =
     (if is_edge u v e then e\<lparr>label := Some (agsafeset_label l)\<rparr> # es
      else e # set_label u v l es)"

text \<open>
  \<^verbatim>\<open>AGraph.reverse()\<close>: a new graph with the same attributes and nodes, and every edge
  turned around with its attributes. pygraphviz copies the attributes to the edge it
  finds between the exchanged end points, which is the new edge when no two edges share
  their end points.
\<close>

definition flip :: "edge \<Rightarrow> edge" where
  "flip e = e\<lparr>source := sink e, sink := source e\<rparr>"

definition AGraph_reverse :: "AGraph \<Rightarrow> AGraph" where
  "AGraph_reverse g = g\<lparr>edges := map flip (edges g)\<rparr>"

subsection \<open>The command object\<close>

text \<open>\<^verbatim>\<open>self.graph\<close> and \<^verbatim>\<open>self._edges\<close>; \<^verbatim>\<open>self.tasks\<close> and \<^verbatim>\<open>self.subtasks\<close> are read-only
  and passed as arguments.\<close>

record cmd =
  graph :: AGraph
  edges_seen :: "(string \<times> string) set"

section \<open>Node resolver\<close>

definition node :: "bool \<Rightarrow> registry \<Rightarrow> string \<Rightarrow> error + string" where
  "node subtasks reg task_name =
     (if subtasks then Inr task_name
      else (case tasks_get reg task_name of
              None \<Rightarrow> Inl (KeyError task_name)
            | Some t \<Rightarrow> Inr (if truthy (subtask_of t) then the (subtask_of t) else task_name)))"

section \<open>Edge accumulator\<close>

text \<open>The separator the source writes as \<^verbatim>\<open>"\\n"\<close>: a backslash and the letter n, which
  is the line break of a dot label.\<close>

definition dot_newline :: string where
  "dot_newline = [CHR 0x5C, CHR ''n'']"

definition add_edge :: "bool \<Rightarrow> registry \<Rightarrow> cmd \<Rightarrow> string \<Rightarrow> string \<Rightarrow> string \<Rightarrow> string option
                        \<Rightarrow> error + cmd" where
  "add_edge subtasks reg s src_name sink_name ah lbl =
     (case node subtasks reg src_name of
        Inl e \<Rightarrow> Inl e
      | Inr src \<Rightarrow>
     (case node subtasks reg sink_name of
        Inl e \<Rightarrow> Inl e
      | Inr snk \<Rightarrow>
          if src \<noteq> snk then
            if (src, snk) \<in> edges_seen s then
              if truthy lbl then
                (case AGraph_get_edge (graph s) src snk of
                   Inl e \<Rightarrow> Inl e
                 | Inr existing_edge \<Rightarrow>
                     let new_label =
                           (if truthy (label existing_edge)
                            then the (label existing_edge) @ dot_newline @ the lbl
                            else the lbl)
                     in Inr (s\<lparr>graph := (graph s)\<lparr>edges := set_label src snk new_label (edges (graph s))\<rparr>\<rparr>))
              else Inr s
            else
              Inr (s\<lparr>edges_seen := insert (src, snk) (edges_seen s),
                     graph := AGraph_add_edge (graph s) src snk ah
                                (if truthy lbl then lbl else None)\<rparr>)
          else Inr s))"

section \<open>File-link annotator\<close>

text \<open>\<^verbatim>\<open>Path(str(f)).name\<close> on a POSIX path: the last component, where empty components
  and \<^verbatim>\<open>.\<close> are dropped; the empty string when nothing is left.\<close>

fun split_sep :: "char \<Rightarrow> string \<Rightarrow> string list" where
  "split_sep c [] = [[]]"
| "split_sep c (x # xs) =
     (if x = c then [] # split_sep c xs
      else (case split_sep c xs of [] \<Rightarrow> [[x]] | p # ps \<Rightarrow> (x # p) # ps))"

definition Path_name :: "string \<Rightarrow> string" where
  "Path_name f =
     (let parts = filter (\<lambda>p. p \<noteq> [] \<and> p \<noteq> ''.'') (split_sep CHR ''/'' f)
      in if parts = [] then [] else last parts)"

text \<open>
  The two Python sets of basenames are lists without repetition, their intersection keeps
  the elements of the first that are in the second, and \<^verbatim>\<open>sorted\<close> is \<^const>\<open>sort\<close>
  in the order of strings by character code. A task object is always truthy, so
  \<^verbatim>\<open>not src_task\<close> holds exactly for a missing task.
\<close>

definition get_connecting_files :: "registry \<Rightarrow> string \<Rightarrow> string \<Rightarrow> string list" where
  "get_connecting_files reg src_task_name sink_task_name =
     (case tasks_get reg src_task_name of
        None \<Rightarrow> []
      | Some src_task \<Rightarrow>
     (case tasks_get reg sink_task_name of
        None \<Rightarrow> []
      | Some sink_task \<Rightarrow>
          let src_file_deps = (if file_dep src_task \<noteq> []
                               then remdups (map Path_name (file_dep src_task)) else []);
              sink_targets = (if targets sink_task \<noteq> []
                              then remdups (map Path_name (targets sink_task)) else []);
              connecting_files = filter (\<lambda>f. f \<in> set sink_targets) src_file_deps
          in sort connecting_files))"

section \<open>Graph builder\<close>

text \<open>\<^verbatim>\<open>sep.join(xs)\<close>.\<close>

fun join :: "string \<Rightarrow> string list \<Rightarrow> string" where
  "join sep [] = []"
| "join sep [x] = x"
| "join sep (x # y # ys) = x @ sep @ join sep (y # ys)"

definition edge_label :: "registry \<Rightarrow> string \<Rightarrow> string \<Rightarrow> string option" where
  "edge_label reg task_name sink_name =
     (let connecting_files = get_connecting_files reg task_name sink_name
      in if connecting_files \<noteq> [] then Some (join dot_newline connecting_files) else None)"

text \<open>
  One \<^verbatim>\<open>for sink_name in ...\<close> loop of the traversal, over the setup tasks or over the task
  dependencies of the task being expanded. The state is the command object and the
  work queue.
\<close>

fun for_sinks :: "bool \<Rightarrow> registry \<Rightarrow> string list \<Rightarrow> string \<Rightarrow> string \<Rightarrow> string list
                  \<Rightarrow> cmd \<times> string list \<Rightarrow> error + cmd \<times> string list" where
  "for_sinks subtasks reg processed task_name ah [] (s, to_process) = Inr (s, to_process)"
| "for_sinks subtasks reg processed task_name ah (sink_name # rest) (s, to_process) =
     (case add_edge subtasks reg s task_name sink_name ah (edge_label reg task_name sink_name) of
        Inl e \<Rightarrow> Inl e
      | Inr s' \<Rightarrow>
          for_sinks subtasks reg processed task_name ah rest
            (s', if sink_name \<notin> set processed then to_process @ [sink_name] else to_process))"

text \<open>The \<^verbatim>\<open># add nodes\<close> step of the loop body.\<close>

definition add_task_node :: "bool \<Rightarrow> task \<Rightarrow> cmd \<Rightarrow> cmd" where
  "add_task_node subtasks t s =
     (let node_attrs = (if has_subtask t then Some ''2'' else None)
      in if \<not> truthy (subtask_of t) \<or> subtasks
         then s\<lparr>graph := AGraph_add_node (graph s) (name t) node_attrs\<rparr>
         else s)"

text \<open>The body of the \<^verbatim>\<open>while\<close> loop for a task that has not been processed yet;
  \<^verbatim>\<open>processed\<close> already holds its name.\<close>

definition expand :: "bool \<Rightarrow> registry \<Rightarrow> string list \<Rightarrow> task \<Rightarrow> cmd \<times> string list
                      \<Rightarrow> error + cmd \<times> string list" where
  "expand subtasks reg processed t st =
     (case for_sinks subtasks reg processed (name t) ''empty'' (setup_tasks t)
             (add_task_node subtasks t (fst st), snd st) of
        Inl e \<Rightarrow> Inl e
      | Inr st2 \<Rightarrow> for_sinks subtasks reg processed (name t) '''' (task_dep t) st2)"

text \<open>
  The \<^verbatim>\<open>while to_process\<close> loop. \<^verbatim>\<open>processed\<close> is the Python set, kept as the list of
  its elements in the order they were added.
\<close>

function populate :: "bool \<Rightarrow> registry \<Rightarrow> string list \<Rightarrow> string list \<Rightarrow> cmd
                      \<Rightarrow> error + string list \<times> cmd" where
  "populate subtasks reg [] processed s = Inr (processed, s)"
| "populate subtasks reg (k # to_process) processed s =
     (case tasks_get reg k of
        None \<Rightarrow> Inl (KeyError k)
      | Some t \<Rightarrow>
          if name t \<in> set processed then populate subtasks reg to_process processed s
          else (case expand subtasks reg (processed @ [name t]) t (s, to_process) of
                  Inl e \<Rightarrow> Inl e
                | Inr (s', to_process') \<Rightarrow>
                    populate subtasks reg to_process' (processed @ [name t]) s'))"
  by pat_completeness auto

termination populate
proof (relation "measures [\<lambda>(subtasks, reg, q, processed, s). card (set (map name reg) - set processed),
                           \<lambda>(subtasks, reg, q, processed, s). length q]", goal_cases)
  case 1
  show ?case by simp
next
  case (2 subtasks reg k to_process processed s t)
  then show ?case by simp
next
  case (3 subtasks reg k to_process processed s t x2 x y)
  have fin: "finite (set (map name reg) - set processed)" by simp
  have mem: "name t \<in> set (map name reg) - set processed"
    using 3 by (auto simp: tasks_get_def find_Some_iff)
  have "set (map name reg) - set (processed @ [name t])
        = (set (map name reg) - set processed) - {name t}" by auto
  then have "card (set (map name reg) - set (processed @ [name t]))
             < card (set (map name reg) - set processed)"
    using fin mem by (metis card_Diff1_less)
  then show ?case by simp
qed

section \<open>Command entry point\<close>

record run_result =
  outfile_name :: string
  printed :: string
  written :: AGraph
  final :: cmd
  visited :: "string list"

definition initial_cmd :: "bool \<Rightarrow> cmd" where
  "initial_cmd horizontal =
     \<lparr>graph = (if horizontal then AGraph_empty\<lparr>rankdir := Some ''LR''\<rparr> else AGraph_empty),
      edges_seen = {}\<rparr>"

text \<open>\<^verbatim>\<open>if pos_args: deque(pos_args) else: deque(control.tasks.keys())\<close>.\<close>

definition initial_queue :: "registry \<Rightarrow> string list option \<Rightarrow> string list" where
  "initial_queue reg pos_args =
     (case pos_args of
        None \<Rightarrow> tasks_keys reg
      | Some ps \<Rightarrow> if ps \<noteq> [] then ps else tasks_keys reg)"

text \<open>Lines 129 to 175: initialisation and traversal.\<close>

definition build :: "registry \<Rightarrow> bool \<Rightarrow> bool \<Rightarrow> string list option \<Rightarrow> error + string list \<times> cmd" where
  "build reg subtasks horizontal pos_args =
     populate subtasks reg (initial_queue reg pos_args) [] (initial_cmd horizontal)"

text \<open>Lines 177 to 179: the destination name.\<close>

definition destination :: "string option \<Rightarrow> string list option \<Rightarrow> error + string" where
  "destination outfile pos_args =
     (if \<not> truthy outfile then
        (case pos_args of
           None \<Rightarrow> Inl TypeError
         | Some ps \<Rightarrow> Inr ((if length ps = 1 then hd ps else ''tasks'') @ ''.dot''))
      else Inr (the outfile))"

definition execute :: "registry \<Rightarrow> bool \<Rightarrow> bool \<Rightarrow> bool \<Rightarrow> string option \<Rightarrow> string list option
                       \<Rightarrow> error + run_result" where
  "execute reg subtasks reverse horizontal outfile pos_args =
     (case build reg subtasks horizontal pos_args of
        Inl e \<Rightarrow> Inl e
      | Inr (processed, s) \<Rightarrow>
     (case destination outfile pos_args of
        Inl e \<Rightarrow> Inl e
      | Inr dest \<Rightarrow>
          Inr \<lparr>outfile_name = dest,
               printed = ''Generated file: '' @ dest,
               written = (if reverse then AGraph_reverse (graph s) else graph s),
               final = s,
               visited = processed\<rparr>))"

section \<open>Specification vocabulary\<close>

definition pair_of :: "edge \<Rightarrow> string \<times> string" where
  "pair_of e = (source e, sink e)"

definition node_names :: "AGraph \<Rightarrow> string list" where
  "node_names g = map node_name (nodes g)"

text \<open>The sinks of a task in the order the loop body visits them.\<close>

definition deps :: "task \<Rightarrow> string list" where
  "deps t = setup_tasks t @ task_dep t"

text \<open>The state invariant of the edge accumulator.\<close>
definition edges_ok :: "cmd \<Rightarrow> bool" where
  "edges_ok s = (edges_seen s = set (map pair_of (edges (graph s)))
                 \<and> distinct (map pair_of (edges (graph s)))
                 \<and> (\<forall>(u, v) \<in> set (map pair_of (edges (graph s))).
                        u \<noteq> v \<and> u \<in> set (node_names (graph s)) \<and> v \<in> set (node_names (graph s)))
                 \<and> distinct (node_names (graph s)))"


inductive_set reachable :: "registry \<Rightarrow> string set \<Rightarrow> string set"
  for reg :: registry and roots :: "string set" where
  root: "k \<in> roots \<Longrightarrow> k \<in> reachable reg roots"
| dep: "k \<in> reachable reg roots \<Longrightarrow> tasks_get reg k = Some t \<Longrightarrow> d \<in> set (deps t)
        \<Longrightarrow> d \<in> reachable reg roots"


section \<open>Example registries\<close>

definition plain_task :: "string \<Rightarrow> string list \<Rightarrow> task" where
  "plain_task n ds = \<lparr>name = n, has_subtask = False, subtask_of = None, task_dep = ds,
                      setup_tasks = [], file_dep = [], targets = []\<rparr>"

definition reg_diamond :: registry where
  "reg_diamond = [plain_task ''A'' [''B'', ''C''], plain_task ''B'' [''D''],
                  plain_task ''C'' [''D''], plain_task ''D'' []]"

definition reg_group :: registry where
  "reg_group =
     [\<lparr>name = ''P'', has_subtask = True, subtask_of = None, task_dep = [''P:a'', ''P:b''],
       setup_tasks = [], file_dep = [], targets = []\<rparr>,
      \<lparr>name = ''P:a'', has_subtask = False, subtask_of = Some ''P'', task_dep = [''Q''],
       setup_tasks = [], file_dep = [''f1.txt''], targets = []\<rparr>,
      \<lparr>name = ''P:b'', has_subtask = False, subtask_of = Some ''P'', task_dep = [''Q''],
       setup_tasks = [], file_dep = [''out/f2.txt''], targets = []\<rparr>,
      \<lparr>name = ''Q'', has_subtask = False, subtask_of = None, task_dep = [],
       setup_tasks = [], file_dep = [], targets = [''f1.txt'', ''f2.txt'']\<rparr>]"

definition reg_setup :: registry where
  "reg_setup =
     [\<lparr>name = ''T'', has_subtask = False, subtask_of = None, task_dep = [''S''],
       setup_tasks = [''S''], file_dep = [], targets = []\<rparr>,
      plain_task ''S'' []]"

definition reg_files :: registry where
  "reg_files =
     [\<lparr>name = ''A'', has_subtask = False, subtask_of = None, task_dep = [''B''],
       setup_tasks = [], file_dep = [''data/out.txt'', ''z.csv'', ''b.csv''], targets = []\<rparr>,
      \<lparr>name = ''B'', has_subtask = False, subtask_of = None, task_dep = [],
       setup_tasks = [], file_dep = [], targets = [''build/z.csv'', ''/tmp/out.txt'', ''q'']\<rparr>]"

text \<open>A group whose second sub-task is linked to \<^verbatim>\<open>Q\<close> by a file named \<^verbatim>\<open><a>\<close>.\<close>

definition reg_html :: registry where
  "reg_html =
     [\<lparr>name = ''P'', has_subtask = True, subtask_of = None, task_dep = [''P:a'', ''P:b''],
       setup_tasks = [], file_dep = [], targets = []\<rparr>,
      \<lparr>name = ''P:a'', has_subtask = False, subtask_of = Some ''P'', task_dep = [''Q''],
       setup_tasks = [], file_dep = [], targets = []\<rparr>,
      \<lparr>name = ''P:b'', has_subtask = False, subtask_of = Some ''P'', task_dep = [''Q''],
       setup_tasks = [], file_dep = [''<a>''], targets = []\<rparr>,
      \<lparr>name = ''Q'', has_subtask = False, subtask_of = None, task_dep = [],
       setup_tasks = [], file_dep = [], targets = [''<a>'']\<rparr>]"

text \<open>Three tasks without any relationship.\<close>

definition reg_three :: registry where
  "reg_three = [plain_task ''x'' [], plain_task ''y'' [], plain_task ''z'' []]"

text \<open>A group two levels deep: \<^verbatim>\<open>S:a\<close> is a sub-task of \<^verbatim>\<open>S\<close> and the parent of
  \<^verbatim>\<open>S:a:x\<close>.\<close>

definition reg_two :: registry where
  "reg_two =
     [\<lparr>name = ''S'', has_subtask = True, subtask_of = None, task_dep = [''S:a''],
       setup_tasks = [], file_dep = [], targets = []\<rparr>,
      \<lparr>name = ''S:a'', has_subtask = True, subtask_of = Some ''S'', task_dep = [''S:a:x''],
       setup_tasks = [], file_dep = [], targets = []\<rparr>,
      \<lparr>name = ''S:a:x'', has_subtask = False, subtask_of = Some ''S:a'', task_dep = [''Q''],
       setup_tasks = [], file_dep = [], targets = []\<rparr>,
      plain_task ''Q'' []]"

definition reg_build :: registry where
  "reg_build = [plain_task ''build'' [''lib''], plain_task ''lib'' []]"

text \<open>The command object of the group registry once the edge from \<^verbatim>\<open>P\<close> to \<^verbatim>\<open>Q\<close> has
  been recorded for the sub-task \<^verbatim>\<open>P:a\<close>.\<close>

definition group_state :: cmd where
  "group_state =
     \<lparr>graph = \<lparr>rankdir = None,
                nodes = [\<lparr>node_name = ''P'', peripheries = Some ''2''\<rparr>,
                         \<lparr>node_name = ''Q'', peripheries = None\<rparr>],
                edges = [\<lparr>source = ''P'', sink = ''Q'', arrowhead = '''', label = Some ''f1.txt''\<rparr>]\<rparr>,
      edges_seen = {(''P'', ''Q'')}\<rparr>"

text \<open>The command object of the setup registry once the setup edge from \<^verbatim>\<open>T\<close> to \<^verbatim>\<open>S\<close>
  has been recorded.\<close>

definition setup_state :: cmd where
  "setup_state =
     \<lparr>graph = \<lparr>rankdir = None,
                nodes = [\<lparr>node_name = ''T'', peripheries = None\<rparr>,
                         \<lparr>node_name = ''S'', peripheries = None\<rparr>],
                edges = [\<lparr>source = ''T'', sink = ''S'', arrowhead = ''empty'', label = None\<rparr>]\<rparr>,
      edges_seen = {(''T'', ''S'')}\<rparr>"

section \<open>Further vocabulary\<close>

text \<open>
  A task identity is served by a command object when the task it names has its node (if
  it is to be shown) and each of its relationships is either a self-loop after resolution
  or recorded as a seen pair.
\<close>

definition served :: "bool \<Rightarrow> registry \<Rightarrow> cmd \<Rightarrow> string \<Rightarrow> bool" where
  "served st reg s x =
     (\<forall>t. tasks_get reg x = Some t \<longrightarrow>
        ((\<not> truthy (subtask_of t) \<or> st) \<longrightarrow> x \<in> set (node_names (graph s)))
        \<and> (\<forall>d\<in>set (deps t). \<exists>u v. node st reg x = Inr u \<and> node st reg d = Inr v
                                  \<and> (u \<noteq> v \<longrightarrow> (u, v) \<in> edges_seen s)))"

definition grows :: "cmd \<Rightarrow> cmd \<Rightarrow> bool" where
  "grows s s' = (edges_seen s \<subseteq> edges_seen s'
                 \<and> set (node_names (graph s)) \<subseteq> set (node_names (graph s')))"

text \<open>A task whose \<^verbatim>\<open>subtask_of\<close> is present.\<close>

definition is_subtask :: "registry \<Rightarrow> string \<Rightarrow> bool" where
  "is_subtask reg x = (case tasks_get reg x of None \<Rightarrow> False | Some t \<Rightarrow> truthy (subtask_of t))"

text \<open>The identity is named as the parent of some task of the registry.\<close>

definition is_parent :: "registry \<Rightarrow> string \<Rightarrow> bool" where
  "is_parent reg x = (\<exists>t\<in>set reg. truthy (subtask_of t) \<and> subtask_of t = Some x)"

section \<open>Basic facts\<close>

lemma tasks_get_Some: "tasks_get reg k = Some t \<Longrightarrow> t \<in> set reg \<and> name t = k"
  by (auto simp: tasks_get_def find_Some_iff)

lemma edges_add_node [simp]: "edges (AGraph_add_node g n per) = edges g"
  by (simp add: AGraph_add_node_def split: option.splits)

lemma node_names_add_node:
  "node_names (AGraph_add_node g n per) = (if n \<in> set (node_names g) then node_names g else node_names g @ [n])"
  by (auto simp: AGraph_add_node_def node_names_def has_node_def o_def split: option.splits intro!: map_cong)

lemma set_node_names_add_node [simp]:
  "set (node_names (AGraph_add_node g n per)) = insert n (set (node_names g))"
  by (auto simp: node_names_add_node)

lemma distinct_node_names_add_node [simp]:
  "distinct (node_names (AGraph_add_node g n per)) = distinct (node_names g)"
  by (auto simp: node_names_add_node)

lemma edges_add_edge [simp]:
  "edges (AGraph_add_edge g u v ah l)
   = edges g @ [\<lparr>source = u, sink = v, arrowhead = ah, label = map_option agsafeset_label l\<rparr>]"
  by (simp add: AGraph_add_edge_def Let_def)

lemma node_names_add_edge [simp]:
  "node_names (AGraph_add_edge g u v ah l)
   = node_names (AGraph_add_node (AGraph_add_node g u None) v None)"
  by (simp add: AGraph_add_edge_def Let_def node_names_def)

lemma set_label_pairs [simp]: "map pair_of (set_label u v l es) = map pair_of es"
  by (induction es) (auto simp: pair_of_def)

lemma set_label_arrowheads [simp]: "map arrowhead (set_label u v l es) = map arrowhead es"
  by (induction es) auto

lemma set_label_sources [simp]: "map source (set_label u v l es) = map source es"
  by (induction es) auto

lemma set_label_sinks [simp]: "map sink (set_label u v l es) = map sink es"
  by (induction es) auto

lemma get_edge_seen:
  "(u, v) \<in> set (map pair_of es) \<Longrightarrow> \<exists>e. find (is_edge u v) es = Some e \<and> e \<in> set es \<and> is_edge u v e"
  by (induction es) (auto simp: pair_of_def is_edge_def)

lemma add_edge_cases:
  assumes "add_edge st reg s a b ah l = Inr s'"
  obtains
    (same) "s' = s"
  | (relabel) u v nl where "node st reg a = Inr u" "node st reg b = Inr v" "u \<noteq> v"
      "(u, v) \<in> edges_seen s" "truthy l"
      "s' = s\<lparr>graph := (graph s)\<lparr>edges := set_label u v nl (edges (graph s))\<rparr>\<rparr>"
  | (new) u v where "node st reg a = Inr u" "node st reg b = Inr v" "u \<noteq> v"
      "(u, v) \<notin> edges_seen s"
      "s' = s\<lparr>edges_seen := insert (u, v) (edges_seen s),
               graph := AGraph_add_edge (graph s) u v ah (if truthy l then l else None)\<rparr>"
proof -
  from assms obtain u where u: "node st reg a = Inr u"
    by (cases "node st reg a") (simp_all add: add_edge_def)
  from assms u obtain v where v: "node st reg b = Inr v"
    by (cases "node st reg b") (simp_all add: add_edge_def)
  show thesis
  proof (cases "u = v")
    case True
    with assms u v have "s' = s" by (simp add: add_edge_def)
    then show thesis by (rule same)
  next
    case ne: False
    show thesis
    proof (cases "(u, v) \<in> edges_seen s")
      case False
      with assms u v ne have "s' = s\<lparr>edges_seen := insert (u, v) (edges_seen s),
               graph := AGraph_add_edge (graph s) u v ah (if truthy l then l else None)\<rparr>"
        by (simp add: add_edge_def)
      with u v ne False show thesis by (rule new)
    next
      case seen: True
      show thesis
      proof (cases "truthy l")
        case False
        with assms u v ne seen have "s' = s" by (simp add: add_edge_def)
        then show thesis by (rule same)
      next
        case True
        with assms u v ne seen obtain e where "AGraph_get_edge (graph s) u v = Inr e"
          by (cases "AGraph_get_edge (graph s) u v") (simp_all add: add_edge_def)
        with assms u v ne seen True
        have "\<exists>nl. s' = s\<lparr>graph := (graph s)\<lparr>edges := set_label u v nl (edges (graph s))\<rparr>\<rparr>"
          by (auto simp add: add_edge_def Let_def)
        then obtain nl where "s' = s\<lparr>graph := (graph s)\<lparr>edges := set_label u v nl (edges (graph s))\<rparr>\<rparr>" ..
        with u v ne seen True show thesis by (rule relabel)
      qed
    qed
  qed
qed

lemma add_edge_edges_ok:
  assumes "add_edge st reg s a b ah l = Inr s'" and "edges_ok s"
  shows "edges_ok s'"
  using assms(1)
proof (cases rule: add_edge_cases)
  case same
  then show ?thesis using assms(2) by simp
next
  case (relabel u v nl)
  then show ?thesis using assms(2)
    by (simp add: edges_ok_def node_names_def)
next
  case (new u v)
  then show ?thesis using assms(2)
    by (auto simp: edges_ok_def pair_of_def)
qed

lemma add_node_edges_ok:
  "edges_ok s \<Longrightarrow> edges_ok (s\<lparr>graph := AGraph_add_node (graph s) n per\<rparr>)"
  by (auto simp: edges_ok_def)

lemma for_sinks_queue:
  "for_sinks st reg pr n ah ds (s, q) = Inr (s', q') \<Longrightarrow> q' = q @ filter (\<lambda>d. d \<notin> set pr) ds"
proof (induction ds arbitrary: s q)
  case Nil
  then show ?case by simp
next
  case (Cons d ds)
  from Cons.prems obtain s1 where a: "add_edge st reg s n d ah (edge_label reg n d) = Inr s1"
    by (cases "add_edge st reg s n d ah (edge_label reg n d)") simp_all
  with Cons.prems
  have "for_sinks st reg pr n ah ds (s1, if d \<notin> set pr then q @ [d] else q) = Inr (s', q')"
    by simp
  from Cons.IH[OF this] show ?case by simp
qed

lemma for_sinks_preserves:
  assumes step: "\<And>s d s'. P s \<Longrightarrow> d \<in> set ds \<Longrightarrow>
                   add_edge st reg s n d ah (edge_label reg n d) = Inr s' \<Longrightarrow> P s'"
      and run: "for_sinks st reg pr n ah ds (s, q) = Inr (s', q')"
      and P: "P s"
  shows "P s'"
proof -
  have "set xs \<subseteq> set ds \<Longrightarrow> for_sinks st reg pr n ah xs (s, q) = Inr (s', q') \<Longrightarrow> P s \<Longrightarrow> P s'"
    for xs s q
  proof (induction xs arbitrary: s q)
    case Nil
    then show ?case by simp
  next
    case (Cons d xs)
    from Cons.prems(2) obtain s1 where a: "add_edge st reg s n d ah (edge_label reg n d) = Inr s1"
      by (cases "add_edge st reg s n d ah (edge_label reg n d)") simp_all
    with Cons.prems(2) obtain q1 where r: "for_sinks st reg pr n ah xs (s1, q1) = Inr (s', q')"
      by simp
    have "d \<in> set ds" using Cons.prems(1) by simp
    then have "P s1" using step[OF Cons.prems(3) _ a] by blast
    moreover have "set xs \<subseteq> set ds" using Cons.prems(1) by simp
    ultimately show ?case using Cons.IH[OF _ r] by blast
  qed
  then show ?thesis using run P by blast
qed

lemma expand_Inr:
  assumes "expand st reg pr t (s, q) = Inr (s', q')"
  obtains s2 q2 where
    "for_sinks st reg pr (name t) ''empty'' (setup_tasks t) (add_task_node st t s, q) = Inr (s2, q2)"
    "for_sinks st reg pr (name t) '''' (task_dep t) (s2, q2) = Inr (s', q')"
proof (cases "for_sinks st reg pr (name t) ''empty'' (setup_tasks t) (add_task_node st t s, q)")
  case (Inl e)
  with assms show thesis by (simp add: expand_def)
next
  case (Inr r)
  obtain s2 q2 where r: "r = (s2, q2)" by (cases r)
  with assms Inr have "for_sinks st reg pr (name t) '''' (task_dep t) (s2, q2) = Inr (s', q')"
    by (simp add: expand_def)
  with Inr r show thesis using that by simp
qed

lemma expand_queue:
  assumes "expand st reg pr t (s, q) = Inr (s', q')"
  shows "q' = q @ filter (\<lambda>d. d \<notin> set pr) (deps t)"
  using assms
proof (cases rule: expand_Inr)
  case (1 s2 q2)
  show ?thesis using for_sinks_queue[OF 1(1)] for_sinks_queue[OF 1(2)] by (simp add: deps_def)
qed

lemma expand_preserves:
  assumes edge: "\<And>s d ah s'. P s \<Longrightarrow> d \<in> set (deps t) \<Longrightarrow>
                   add_edge st reg s (name t) d ah (edge_label reg (name t) d) = Inr s' \<Longrightarrow> P s'"
      and nd: "P s \<Longrightarrow> P (add_task_node st t s)"
      and run: "expand st reg pr t (s, q) = Inr (s', q')" and P: "P s"
  shows "P s'"
  using run
proof (cases rule: expand_Inr)
  case (1 s2 q2)
  have P1: "P (add_task_node st t s)" using P nd by simp
  have P2: "P s2"
  proof (rule for_sinks_preserves[where P = P, OF _ 1(1) P1])
    fix s d s' assume "P s" "d \<in> set (setup_tasks t)"
      "add_edge st reg s (name t) d ''empty'' (edge_label reg (name t) d) = Inr s'"
    then show "P s'" using edge[of s d "''empty''" s'] by (simp add: deps_def)
  qed
  show ?thesis
  proof (rule for_sinks_preserves[where P = P, OF _ 1(2) P2])
    fix s d s' assume "P s" "d \<in> set (task_dep t)"
      "add_edge st reg s (name t) d '''' (edge_label reg (name t) d) = Inr s'"
    then show "P s'" using edge[of s d "''''" s'] by (simp add: deps_def)
  qed
qed

lemma populate_induct_fixed [case_names empty step]:
  assumes e: "\<And>p s. Q [] p s"
      and s: "\<And>k q p s.
                (\<And>t. tasks_get reg k = Some t \<Longrightarrow> name t \<in> set p \<Longrightarrow> Q q p s) \<Longrightarrow>
                (\<And>t s' q'. tasks_get reg k = Some t \<Longrightarrow> name t \<notin> set p \<Longrightarrow>
                    expand st reg (p @ [name t]) t (s, q) = Inr (s', q') \<Longrightarrow> Q q' (p @ [name t]) s') \<Longrightarrow>
                Q (k # q) p s"
  shows "Q q p s"
proof -
  have "a = st \<longrightarrow> b = reg \<longrightarrow> Q q p s" for a b
  proof (induction a b q p s rule: populate.induct)
    case (1 subtasks reg processed s)
    show ?case using e by simp
  next
    case (2 subtasks reg' k to_process processed s)
    show ?case
    proof (intro impI)
      assume a: "subtasks = st" and b: "reg' = reg"
      show "Q (k # to_process) processed s"
      proof (rule s)
        fix t assume "tasks_get reg k = Some t" "name t \<in> set processed"
        then show "Q to_process processed s" using "2.IH"(1)[of t] a b by simp
      next
        fix t s' q'
        assume "tasks_get reg k = Some t" "name t \<notin> set processed"
          "expand st reg (processed @ [name t]) t (s, to_process) = Inr (s', q')"
        then show "Q q' (processed @ [name t]) s'"
          using "2.IH"(2)[of t "(s', q')" s' q'] a b by simp
      qed
    qed
  qed
  then show ?thesis by simp
qed

lemma populate_step:
  assumes "populate st reg (k # q) p s = Inr r"
  obtains (skip) t where "tasks_get reg k = Some t" "name t = k" "k \<in> set p"
                         "populate st reg q p s = Inr r"
        | (visit) t s' q' where "tasks_get reg k = Some t" "name t = k" "k \<notin> set p"
                         "expand st reg (p @ [k]) t (s, q) = Inr (s', q')"
                         "populate st reg q' (p @ [k]) s' = Inr r"
proof -
  from assms obtain t where t: "tasks_get reg k = Some t"
    by (cases "tasks_get reg k") simp_all
  then have nt: "name t = k" using tasks_get_Some by blast
  show thesis
  proof (cases "k \<in> set p")
    case True
    with assms t nt have "populate st reg q p s = Inr r" by simp
    with t nt True show thesis by (rule skip)
  next
    case False
    with assms t nt obtain s' q' where e: "expand st reg (p @ [k]) t (s, q) = Inr (s', q')"
      by (cases "expand st reg (p @ [k]) t (s, q)") auto
    with assms t nt False have "populate st reg q' (p @ [k]) s' = Inr r" by simp
    with t nt False e show thesis by (rule visit)
  qed
qed

lemma populate_preserves:
  assumes edge: "\<And>s t d ah s'. P s \<Longrightarrow> tasks_get reg (name t) = Some t \<Longrightarrow> d \<in> set (deps t) \<Longrightarrow>
                   add_edge st reg s (name t) d ah (edge_label reg (name t) d) = Inr s' \<Longrightarrow> P s'"
      and nd: "\<And>s t. P s \<Longrightarrow> tasks_get reg (name t) = Some t \<Longrightarrow> P (add_task_node st t s)"
  shows "populate st reg q p s = Inr (p', s') \<Longrightarrow> P s \<Longrightarrow> P s'"
proof (induction q p s rule: populate_induct_fixed[where st = st and reg = reg])
  case (empty p s)
  then show ?case by simp
next
  case (step k q p s)
  from step.prems(1) show ?case
  proof (cases rule: populate_step)
    case (skip t)
    then show ?thesis using step.IH(1)[of t] step.prems(2) by simp
  next
    case (visit t s1 q1)
    have t': "tasks_get reg (name t) = Some t" using visit by simp
    have "P s1"
    proof (rule expand_preserves[where P = P, OF _ _ visit(4) step.prems(2)])
      fix s d ah s' assume "P s" "d \<in> set (deps t)"
        "add_edge st reg s (name t) d ah (edge_label reg (name t) d) = Inr s'"
      then show "P s'" using edge[OF _ t'] by blast
    next
      show "P (add_task_node st t s)" using nd[OF step.prems(2) t'] .
    qed
    then show ?thesis using step.IH(2)[of t s1 q1] visit by simp
  qed
qed

lemma initial_cmd_edges_ok: "edges_ok (initial_cmd hz)"
  by (simp add: initial_cmd_def edges_ok_def AGraph_empty_def node_names_def)

lemma add_task_node_edges_ok: "edges_ok s \<Longrightarrow> edges_ok (add_task_node st t s)"
  by (simp add: add_task_node_def add_node_edges_ok)

lemma populate_edges_ok:
  assumes "populate st reg q p s = Inr (p', s')" and "edges_ok s"
  shows "edges_ok s'"
  by (rule populate_preserves[where P = edges_ok, OF _ _ assms])
     (auto intro: add_edge_edges_ok add_task_node_edges_ok)

lemma build_edges_ok: "build reg st hz pa = Inr (p, s) \<Longrightarrow> edges_ok s"
  unfolding build_def by (rule populate_edges_ok[OF _ initial_cmd_edges_ok])

lemma reachable_mono: "A \<subseteq> reachable reg B \<Longrightarrow> reachable reg A \<subseteq> reachable reg B"
proof
  fix x assume A: "A \<subseteq> reachable reg B" and "x \<in> reachable reg A"
  from this(2) show "x \<in> reachable reg B"
  proof (induction rule: reachable.induct)
    case (root k)
    then show ?case using A by blast
  next
    case (dep k t d)
    then show ?case by (blast intro: reachable.dep)
  qed
qed

lemma reachable_closed_least:
  assumes "roots \<subseteq> S" and "\<And>k t d. k \<in> S \<Longrightarrow> tasks_get reg k = Some t \<Longrightarrow> d \<in> set (deps t) \<Longrightarrow> d \<in> S"
  shows "reachable reg roots \<subseteq> S"
proof
  fix x assume "x \<in> reachable reg roots"
  then show "x \<in> S"
    by (induction rule: reachable.induct) (use assms in blast)+
qed

text \<open>What the loop does to the processed set.\<close>

lemma populate_processed:
  "populate st reg q p s = Inr (p', s') \<Longrightarrow>
     set p \<union> set q \<subseteq> set p' \<and> (distinct p \<longrightarrow> distinct p')
     \<and> set p' \<subseteq> set p \<union> reachable reg (set q)"
proof (induction q p s rule: populate_induct_fixed[where st = st and reg = reg])
  case (empty p s)
  then show ?case by simp
next
  case (step k q p s)
  from step.prems show ?case
  proof (cases rule: populate_step)
    case (skip t)
    have "reachable reg (set q) \<subseteq> reachable reg (set (k # q))"
      by (rule reachable_mono) (auto intro: reachable.root)
    then show ?thesis using step.IH(1)[of t] skip by auto
  next
    case (visit t s1 q1)
    have q1: "q1 = q @ filter (\<lambda>d. d \<notin> set (p @ [k])) (deps t)"
      using expand_queue[OF visit(4)] .
    have ih: "set (p @ [k]) \<union> set q1 \<subseteq> set p' \<and> (distinct (p @ [k]) \<longrightarrow> distinct p')
              \<and> set p' \<subseteq> set (p @ [k]) \<union> reachable reg (set q1)"
      using step.IH(2)[of t s1 q1] visit by simp
    have "set q1 \<subseteq> reachable reg (set (k # q))"
      unfolding q1 using visit(1) by (auto intro: reachable.root reachable.dep[of k _ _ t])
    then have "reachable reg (set q1) \<subseteq> reachable reg (set (k # q))"
      by (rule reachable_mono)
    moreover have "k \<in> reachable reg (set (k # q))" by (simp add: reachable.root)
    moreover have "set q \<subseteq> set q1" unfolding q1 by auto
    ultimately show ?thesis using ih visit(3) by auto
  qed
qed

lemma populate_closed:
  "populate st reg q p s = Inr (p', s') \<Longrightarrow>
   (\<forall>x\<in>set p. \<forall>t. tasks_get reg x = Some t \<longrightarrow> set (deps t) \<subseteq> set p \<union> set q) \<Longrightarrow>
   (\<forall>x\<in>set p'. \<forall>t. tasks_get reg x = Some t \<longrightarrow> set (deps t) \<subseteq> set p')"
proof (induction q p s rule: populate_induct_fixed[where st = st and reg = reg])
  case (empty p s)
  then show ?case by simp
next
  case (step k q p s)
  from step.prems(1) show ?case
  proof (cases rule: populate_step)
    case (skip t)
    have "\<forall>x\<in>set p. \<forall>t. tasks_get reg x = Some t \<longrightarrow> set (deps t) \<subseteq> set p \<union> set q"
      using step.prems(2) skip(3) by auto
    then show ?thesis using step.IH(1)[of t] skip by simp
  next
    case (visit t s1 q1)
    have q1: "q1 = q @ filter (\<lambda>d. d \<notin> set (p @ [k])) (deps t)"
      using expand_queue[OF visit(4)] .
    have "\<forall>x\<in>set (p @ [k]). \<forall>t. tasks_get reg x = Some t \<longrightarrow> set (deps t) \<subseteq> set (p @ [k]) \<union> set q1"
    proof (intro ballI allI impI)
      fix x t' assume x: "x \<in> set (p @ [k])" and t': "tasks_get reg x = Some t'"
      show "set (deps t') \<subseteq> set (p @ [k]) \<union> set q1"
      proof (cases "x = k")
        case True
        then have "t' = t" using t' visit(1) by simp
        then show ?thesis unfolding q1 by auto
      next
        case False
        then have "x \<in> set p" using x by simp
        then have "set (deps t') \<subseteq> set p \<union> set (k # q)" using step.prems(2) t' by blast
        then show ?thesis unfolding q1 by auto
      qed
    qed
    then show ?thesis using step.IH(2)[of t s1 q1] visit by simp
  qed
qed

lemma build_processed:
  assumes "build reg st hz pa = Inr (p, s)"
  shows "distinct p \<and> set p = reachable reg (set (initial_queue reg pa))"
proof -
  let ?q = "initial_queue reg pa"
  have run: "populate st reg ?q [] (initial_cmd hz) = Inr (p, s)"
    using assms by (simp add: build_def)
  from populate_processed[OF run]
  have a: "set ?q \<subseteq> set p" and d: "distinct p" and b: "set p \<subseteq> reachable reg (set ?q)"
    by auto
  have c: "\<forall>x\<in>set p. \<forall>t. tasks_get reg x = Some t \<longrightarrow> set (deps t) \<subseteq> set p"
    by (rule populate_closed[OF run]) simp
  have "reachable reg (set ?q) \<subseteq> set p"
    by (rule reachable_closed_least[OF a]) (use c in blast)
  with b d show ?thesis by blast
qed

section \<open>Facts about the file-link annotator\<close>

lemma sort_filter_remdups:
  "sort (filter (\<lambda>f. f \<in> set (remdups ys)) (remdups xs)) = sorted_list_of_set (set xs \<inter> set ys)"
proof -
  have d: "distinct (filter (\<lambda>f. f \<in> set (remdups ys)) (remdups xs))" by simp
  have s: "set (filter (\<lambda>f. f \<in> set (remdups ys)) (remdups xs)) = set xs \<inter> set ys" by auto
  show ?thesis using d s
    by (metis sorted_list_of_set_sort_remdups distinct_remdups_id)
qed

lemma guarded_remdups: "(if xs \<noteq> [] then remdups (map f xs) else []) = remdups (map f xs)"
  by simp

lemma connecting_files_present:
  assumes "tasks_get reg a = Some s" and "tasks_get reg b = Some k"
  shows "get_connecting_files reg a b
         = sorted_list_of_set (Path_name ` set (file_dep s) \<inter> Path_name ` set (targets k))"
proof -
  have "get_connecting_files reg a b
        = sort (filter (\<lambda>f. f \<in> set (remdups (map Path_name (targets k))))
                       (remdups (map Path_name (file_dep s))))"
    using assms unfolding get_connecting_files_def Let_def guarded_remdups by simp
  also have "\<dots> = sorted_list_of_set (set (map Path_name (file_dep s)) \<inter> set (map Path_name (targets k)))"
    by (rule sort_filter_remdups)
  finally show ?thesis by simp
qed

lemma connecting_files_absent:
  "tasks_get reg a = None \<or> tasks_get reg b = None \<Longrightarrow> get_connecting_files reg a b = []"
  by (auto simp: get_connecting_files_def split: option.splits)

section \<open>File-link annotator: sorted intersection of basenames\<close>

text \<open>
  Claim C4. For every pair of task identities, \<^verbatim>\<open>get_connecting_files\<close> returns the set
  intersection of the basenames of the source task's \<^verbatim>\<open>file_dep\<close> and the basenames of
  the sink task's \<^verbatim>\<open>targets\<close>, sorted lexicographically and without repetition, so the
  result depends only on the two sets and not on their iteration order. When either task
  is absent from the registry, or the source has no file dependencies or the sink no
  targets, the result is the empty list; the function has no failing branch.
\<close>

theorem connecting_files_sorted_intersection:
  "(\<forall>s k. tasks_get reg a = Some s \<and> tasks_get reg b = Some k \<longrightarrow>
       get_connecting_files reg a b
         = sorted_list_of_set (Path_name ` set (file_dep s) \<inter> Path_name ` set (targets k))
       \<and> (file_dep s = [] \<or> targets k = [] \<longrightarrow> get_connecting_files reg a b = []))
   \<and> (tasks_get reg a = None \<or> tasks_get reg b = None \<longrightarrow> get_connecting_files reg a b = [])
   \<and> sorted (get_connecting_files reg a b) \<and> distinct (get_connecting_files reg a b)"
proof (intro conjI allI impI)
  fix s k assume h: "tasks_get reg a = Some s \<and> tasks_get reg b = Some k"
  then show e: "get_connecting_files reg a b
         = sorted_list_of_set (Path_name ` set (file_dep s) \<inter> Path_name ` set (targets k))"
    using connecting_files_present by blast
  assume "file_dep s = [] \<or> targets k = []"
  then show "get_connecting_files reg a b = []" unfolding e by auto
next
  assume "tasks_get reg a = None \<or> tasks_get reg b = None"
  then show "get_connecting_files reg a b = []" by (rule connecting_files_absent)
next
  show "sorted (get_connecting_files reg a b)"
    by (cases "tasks_get reg a"; cases "tasks_get reg b")
       (simp_all add: connecting_files_present connecting_files_absent)
  show "distinct (get_connecting_files reg a b)"
    by (cases "tasks_get reg a"; cases "tasks_get reg b")
       (simp_all add: connecting_files_present connecting_files_absent)
qed

theorem connecting_files_sorted_intersection_witness:
  "get_connecting_files reg_files ''A'' ''B'' = [''out.txt'', ''z.csv'']
   \<and> sorted_list_of_set (Path_name ` {''data/out.txt'', ''z.csv'', ''b.csv''}
                          \<inter> Path_name ` {''build/z.csv'', ''/tmp/out.txt'', ''q''})
       = [''out.txt'', ''z.csv'']
   \<and> get_connecting_files reg_files ''A'' ''ghost'' = []
   \<and> get_connecting_files reg_files ''B'' ''A'' = []"
proof -
  have a: "tasks_get reg_files ''A'' = Some (hd reg_files)"
    by (simp add: tasks_get_def reg_files_def)
  have b: "tasks_get reg_files ''B'' = Some (hd (tl reg_files))"
    by (simp add: tasks_get_def reg_files_def)
  have g: "tasks_get reg_files ''ghost'' = None"
    by (simp add: tasks_get_def reg_files_def)
  have v: "get_connecting_files reg_files ''A'' ''B'' = [''out.txt'', ''z.csv'']"
    by code_simp
  note ab = connecting_files_sorted_intersection[of reg_files "''A''" "''B''",
              THEN conjunct1, rule_format, OF conjI[OF a b]]
  note ag = connecting_files_sorted_intersection[of reg_files "''A''" "''ghost''",
              THEN conjunct2, THEN conjunct1, rule_format, OF disjI2[OF g]]
  note ba = connecting_files_sorted_intersection[of reg_files "''B''" "''A''",
              THEN conjunct1, rule_format, OF conjI[OF b a]]
  have fd: "file_dep (hd (tl reg_files)) = []" by (simp add: reg_files_def)
  show ?thesis
    using ab[THEN conjunct1] ag ba[THEN conjunct2, rule_format, OF disjI1[OF fd]] v
    by (simp add: reg_files_def)
qed

section \<open>Node resolver with sub-task display enabled\<close>

text \<open>
  Claim C10. When sub-task display is enabled, the node resolver returns the task identity
  it was given, whatever the registry holds, so it cannot fail, also for an identity that
  is absent from the registry. The resolver fails only when sub-task display is disabled
  and the identity is absent, and the failure is the \<^verbatim>\<open>KeyError\<close> of that identity.
\<close>

theorem node_total_when_subtasks_shown:
  "node True reg n = Inr n
   \<and> (\<forall>st e. node st reg n = Inl e \<longrightarrow> \<not> st \<and> tasks_get reg n = None \<and> e = KeyError n)"
  by (auto simp: node_def split: if_splits option.splits)

theorem node_total_when_subtasks_shown_witness:
  "node True [] ''ghost'' = Inr ''ghost''
   \<and> node False [] ''ghost'' = Inl (KeyError ''ghost'')
   \<and> tasks_get [] ''ghost'' = None"
proof -
  have f: "node False [] ''ghost'' = Inl (KeyError ''ghost'')"
    by (simp add: node_def tasks_get_def)
  from node_total_when_subtasks_shown[of "[]" "''ghost''", THEN conjunct2, rule_format, OF f]
       node_total_when_subtasks_shown[of "[]" "''ghost''", THEN conjunct1] f
  show ?thesis by simp
qed

section \<open>Absent identities are fatal\<close>

lemma add_edge_absent_sink:
  assumes "tasks_get reg b = None"
  shows "\<exists>e. add_edge False reg s a b ah l = Inl e"
proof (cases "node False reg a")
  case (Inl e)
  then show ?thesis by (simp add: add_edge_def)
next
  case (Inr u)
  have "node False reg b = Inl (KeyError b)" using assms by (simp add: node_def)
  with Inr show ?thesis by (simp add: add_edge_def)
qed

lemma for_sinks_absent_sink:
  assumes "tasks_get reg d = None"
  shows "d \<in> set ds \<Longrightarrow> \<exists>e. for_sinks False reg pr n ah ds (s, q) = Inl e"
proof (induction ds arbitrary: s q)
  case Nil
  then show ?case by simp
next
  case (Cons x xs)
  show ?case
  proof (cases "add_edge False reg s n x ah (edge_label reg n x)")
    case (Inl e)
    then show ?thesis by simp
  next
    case (Inr s1)
    with add_edge_absent_sink[OF assms, of s n ah "edge_label reg n d"] have "x \<noteq> d" by auto
    with Cons.prems have "d \<in> set xs" by simp
    from Cons.IH[OF this] Inr show ?thesis by simp
  qed
qed

lemma expand_absent_sink:
  assumes "tasks_get reg d = None" and "d \<in> set (deps t)"
  shows "\<exists>e. expand False reg pr t (s, q) = Inl e"
proof (cases "for_sinks False reg pr (name t) ''empty'' (setup_tasks t) (add_task_node False t s, q)")
  case (Inl e)
  then show ?thesis by (simp add: expand_def)
next
  case (Inr r)
  obtain s2 q2 where r: "r = (s2, q2)" by (cases r)
  have "d \<notin> set (setup_tasks t)"
    using for_sinks_absent_sink[OF assms(1), of "setup_tasks t" pr "name t" "''empty''"
                                   "add_task_node False t s" q] Inr by auto
  then have "d \<in> set (task_dep t)" using assms(2) by (simp add: deps_def)
  from for_sinks_absent_sink[OF assms(1) this, of pr "name t" "''''" s2 q2] Inr r
  show ?thesis by (simp add: expand_def)
qed

text \<open>
  Claim C8. Dereferencing a task identity that is absent from the registry is a fatal
  failure that nothing recovers from. It is the \<^verbatim>\<open>KeyError\<close> of the identity when the
  traversal pops it from the queue, and when the node resolver looks it up with sub-task
  display disabled; a task with an absent sink stops the traversal when it is expanded
  with sub-task display disabled; and every failure of the traversal is the result of the
  whole command.
\<close>

theorem absent_identity_is_fatal:
  "(tasks_get reg k = None \<longrightarrow> populate st reg (k # q) p s = Inl (KeyError k))
   \<and> (tasks_get reg k = None \<longrightarrow> node False reg k = Inl (KeyError k))
   \<and> (\<forall>t d. tasks_get reg k = Some t \<and> k \<notin> set p \<and> d \<in> set (deps t) \<and> tasks_get reg d = None
          \<longrightarrow> (\<exists>e. populate False reg (k # q) p s = Inl e))
   \<and> (\<forall>e. build reg st hz pa = Inl e \<longrightarrow> execute reg st rv hz out pa = Inl e)"
proof (intro conjI allI impI)
  assume "tasks_get reg k = None"
  then show "populate st reg (k # q) p s = Inl (KeyError k)" by simp
next
  assume "tasks_get reg k = None"
  then show "node False reg k = Inl (KeyError k)" by (simp add: node_def)
next
  fix t d
  assume h: "tasks_get reg k = Some t \<and> k \<notin> set p \<and> d \<in> set (deps t) \<and> tasks_get reg d = None"
  then have nt: "name t = k" using tasks_get_Some by blast
  from h obtain e where "expand False reg (p @ [name t]) t (s, q) = Inl e"
    using expand_absent_sink[of reg d t "p @ [name t]" s q] by blast
  then show "\<exists>e. populate False reg (k # q) p s = Inl e" using h nt by simp
next
  fix e assume "build reg st hz pa = Inl e"
  then show "execute reg st rv hz out pa = Inl e" by (simp add: execute_def)
qed

theorem absent_identity_is_fatal_witness:
  "tasks_get reg_build ''nope'' = None
   \<and> populate False reg_build [''nope'', ''lib''] [] (initial_cmd False) = Inl (KeyError ''nope'')
   \<and> node False reg_build ''nope'' = Inl (KeyError ''nope'')
   \<and> build reg_build False False (Some [''nope'']) = Inl (KeyError ''nope'')
   \<and> execute reg_build False True False None (Some [''nope'']) = Inl (KeyError ''nope'')
   \<and> (\<exists>e. populate False [plain_task ''x'' [''nope'']] [''x''] [] (initial_cmd False) = Inl e)"
proof -
  have g: "tasks_get reg_build ''nope'' = None"
    by (simp add: tasks_get_def reg_build_def plain_task_def)
  note a = absent_identity_is_fatal[of reg_build "''nope''" False "[''lib'']" "[]" "initial_cmd False"]
  have p: "populate False reg_build [''nope'', ''lib''] [] (initial_cmd False) = Inl (KeyError ''nope'')"
    using a[THEN conjunct1, rule_format, OF g] .
  have n: "node False reg_build ''nope'' = Inl (KeyError ''nope'')"
    using a[THEN conjunct2, THEN conjunct1, rule_format, OF g] .
  have b: "build reg_build False False (Some [''nope'']) = Inl (KeyError ''nope'')"
    using absent_identity_is_fatal[of reg_build "''nope''" False "[]" "[]" "initial_cmd False",
            THEN conjunct1, rule_format, OF g]
    by (simp add: build_def initial_queue_def)
  have e: "execute reg_build False True False None (Some [''nope'']) = Inl (KeyError ''nope'')"
    using absent_identity_is_fatal[of reg_build _ False _ _ _ False "Some [''nope'']" True None,
            THEN conjunct2, THEN conjunct2, THEN conjunct2, rule_format, OF b] .
  have x: "tasks_get [plain_task ''x'' [''nope'']] ''x'' = Some (plain_task ''x'' [''nope''])
           \<and> ''x'' \<notin> set [] \<and> ''nope'' \<in> set (deps (plain_task ''x'' [''nope'']))
           \<and> tasks_get [plain_task ''x'' [''nope'']] ''nope'' = None"
    by (simp add: tasks_get_def plain_task_def deps_def)
  have d: "\<exists>e. populate False [plain_task ''x'' [''nope'']] [''x''] [] (initial_cmd False) = Inl e"
    using absent_identity_is_fatal[of "[plain_task ''x'' [''nope'']]" "''x''" False "[]" "[]"
            "initial_cmd False", THEN conjunct2, THEN conjunct2, THEN conjunct1, rule_format, OF x] .
  show ?thesis using g p n b e d by blast
qed

section \<open>Default destination name\<close>

lemma execute_Inr:
  assumes "build reg st hz pa = Inr (p, s)" and "destination out pa = Inr dest"
  shows "execute reg st rv hz out pa
         = Inr \<lparr>outfile_name = dest, printed = ''Generated file: '' @ dest,
                written = (if rv then AGraph_reverse (graph s) else graph s),
                final = s, visited = p\<rparr>"
  using assms by (simp add: execute_def)

text \<open>
  Claim C7. When no explicit outfile is supplied (it is \<^verbatim>\<open>None\<close> or empty) and the
  traversal succeeded on the list of root arguments, the command returns the destination
  name derived from that list: with exactly one root argument the destination is that
  identity followed by \<^verbatim>\<open>.dot\<close>, with no root argument or with two or more it is
  \<^verbatim>\<open>tasks.dot\<close>.
\<close>

theorem default_destination_name:
  assumes "\<not> truthy out" and "build reg st hz (Some ps) = Inr (p, s)"
  shows "\<exists>r. execute reg st rv hz out (Some ps) = Inr r
             \<and> (\<forall>x. ps = [x] \<longrightarrow> outfile_name r = x @ ''.dot'')
             \<and> (ps = [] \<or> 2 \<le> length ps \<longrightarrow> outfile_name r = ''tasks.dot'')"
proof -
  let ?dest = "(if length ps = 1 then hd ps else ''tasks'') @ ''.dot''"
  have d: "destination out (Some ps) = Inr ?dest"
    using assms(1) by (simp add: destination_def)
  have a: "\<forall>x. ps = [x] \<longrightarrow> ?dest = x @ ''.dot''" by simp
  have b: "ps = [] \<or> 2 \<le> length ps \<longrightarrow> ?dest = ''tasks.dot''" by auto
  show ?thesis unfolding execute_Inr[OF assms(2) d] using a b by simp
qed

theorem default_destination_name_witness:
  "(\<exists>r. execute reg_build False False False None (Some [''build'']) = Inr r
        \<and> outfile_name r = ''build.dot'')
   \<and> (\<exists>r. execute reg_build False False False None (Some []) = Inr r
        \<and> outfile_name r = ''tasks.dot'')
   \<and> (\<exists>r. execute reg_build False False False (Some '''') (Some [''lib'', ''build'']) = Inr r
        \<and> outfile_name r = ''tasks.dot'')"
proof -
  have n: "\<not> truthy None" "\<not> truthy (Some '''')" by simp_all
  have "\<not> isl (build reg_build False False (Some [''build'']))" by code_simp
  then obtain p1 s1 where e1: "build reg_build False False (Some [''build'']) = Inr (p1, s1)"
    by (cases "build reg_build False False (Some [''build''])") auto
  have "\<not> isl (build reg_build False False (Some []))" by code_simp
  then obtain p0 s0 where e0: "build reg_build False False (Some []) = Inr (p0, s0)"
    by (cases "build reg_build False False (Some [])") auto
  have "\<not> isl (build reg_build False False (Some [''lib'', ''build'']))" by code_simp
  then obtain p2 s2 where e2: "build reg_build False False (Some [''lib'', ''build'']) = Inr (p2, s2)"
    by (cases "build reg_build False False (Some [''lib'', ''build''])") auto
  from default_destination_name[OF n(1) e1, of False]
       default_destination_name[OF n(1) e0, of False]
       default_destination_name[OF n(2) e2, of False]
  show ?thesis by auto
qed

section \<open>Reverse mode\<close>

lemma flip_flip [simp]: "flip (flip e) = e"
  by (simp add: flip_def)

lemma reverse_reverse: "AGraph_reverse (AGraph_reverse g) = g"
  by (simp add: AGraph_reverse_def o_def)

text \<open>
  Claim C6. When \<^verbatim>\<open>reverse\<close> is set, the graph that is written is the accumulated graph
  with every edge turned around: source and sink are exchanged and the arrowhead and the
  label of each edge are kept, and so are the nodes and the graph attributes. The
  accumulated graph itself is the one the traversal built, whether or not \<^verbatim>\<open>reverse\<close> is
  set. Reversing the written graph again gives back the accumulated graph, so its edge
  set is the original one.
\<close>

theorem reverse_flips_every_edge:
  assumes "execute reg st True hz out pa = Inr r"
  shows "edges (written r) = map flip (edges (graph (final r)))
         \<and> (\<forall>e. source (flip e) = sink e \<and> sink (flip e) = source e
                \<and> arrowhead (flip e) = arrowhead e \<and> label (flip e) = label e)
         \<and> nodes (written r) = nodes (graph (final r))
         \<and> rankdir (written r) = rankdir (graph (final r))
         \<and> build reg st hz pa = Inr (visited r, final r)
         \<and> (\<exists>r0. execute reg st False hz out pa = Inr r0 \<and> final r0 = final r
                  \<and> written r0 = graph (final r) \<and> outfile_name r0 = outfile_name r)
         \<and> AGraph_reverse (written r) = graph (final r)
         \<and> set (edges (AGraph_reverse (written r))) = set (edges (graph (final r)))"
proof -
  from assms obtain p s where b: "build reg st hz pa = Inr (p, s)"
    by (cases "build reg st hz pa") (auto simp: execute_def)
  with assms obtain dest where d: "destination out pa = Inr dest"
    by (cases "destination out pa") (auto simp: execute_def)
  have r: "r = \<lparr>outfile_name = dest, printed = ''Generated file: '' @ dest,
                written = AGraph_reverse (graph s), final = s, visited = p\<rparr>"
    using assms execute_Inr[OF b d, of True] by simp
  have f: "\<forall>e. source (flip e) = sink e \<and> sink (flip e) = source e
                \<and> arrowhead (flip e) = arrowhead e \<and> label (flip e) = label e"
    by (simp add: flip_def)
  have e0: "execute reg st False hz out pa
            = Inr \<lparr>outfile_name = dest, printed = ''Generated file: '' @ dest,
                   written = graph s, final = s, visited = p\<rparr>"
    using execute_Inr[OF b d, of False] by simp
  show ?thesis unfolding r e0 using b f
    by (simp add: reverse_reverse) (simp add: AGraph_reverse_def)
qed

theorem reverse_flips_every_edge_witness:
  "(\<exists>r. execute reg_files False True False None (Some [''A'']) = Inr r
        \<and> map pair_of (edges (written r)) = [(''B'', ''A'')]
        \<and> map pair_of (edges (graph (final r))) = [(''A'', ''B'')]
        \<and> map label (edges (written r)) = [Some (''out.txt'' @ dot_newline @ ''z.csv'')]
        \<and> map label (edges (graph (final r))) = [Some (''out.txt'' @ dot_newline @ ''z.csv'')]
        \<and> map arrowhead (edges (written r)) = map arrowhead (edges (graph (final r)))
        \<and> AGraph_reverse (written r) = graph (final r))"
proof -
  let ?x = "execute reg_files False True False None (Some [''A''])"
  have "\<not> isl ?x" by code_simp
  then obtain r where e: "?x = Inr r" by (cases ?x) auto
  have "map pair_of (edges (graph (final (projr ?x)))) = [(''A'', ''B'')]" by code_simp
  then have v: "map pair_of (edges (graph (final r))) = [(''A'', ''B'')]" by (simp add: e)
  have "map label (edges (graph (final (projr ?x)))) = [Some (''out.txt'' @ dot_newline @ ''z.csv'')]"
    by code_simp
  then have l: "map label (edges (graph (final r))) = [Some (''out.txt'' @ dot_newline @ ''z.csv'')]"
    by (simp add: e)
  note t = reverse_flips_every_edge[OF e]
  have w: "edges (written r) = map flip (edges (graph (final r)))" using t by blast
  have rr: "AGraph_reverse (written r) = graph (final r)" using t by blast
  have "map pair_of (edges (written r)) = [(''B'', ''A'')]"
    using v unfolding w by (auto simp: pair_of_def flip_def)
  moreover have "map label (edges (written r)) = map label (edges (graph (final r)))"
    unfolding w by (simp add: flip_def o_def)
  moreover have "map arrowhead (edges (written r)) = map arrowhead (edges (graph (final r)))"
    unfolding w by (simp add: flip_def o_def)
  ultimately show ?thesis using e v l rr by simp
qed

section \<open>Facts about relabelling an edge\<close>

lemma find_set_label:
  "find (is_edge u v) (set_label u v l es)
   = map_option (\<lambda>e. e\<lparr>label := Some (agsafeset_label l)\<rparr>) (find (is_edge u v) es)"
  by (induction es) (auto simp: is_edge_def)

lemma filter_others_set_label:
  "filter (\<lambda>x. \<not> is_edge u v x) (set_label u v l es) = filter (\<lambda>x. \<not> is_edge u v x) es"
  by (induction es) (auto simp: is_edge_def)

lemma length_set_label [simp]: "length (set_label u v l es) = length es"
  by (induction es) auto

lemma at_most_one_of_distinct:
  "distinct (map pair_of es) \<Longrightarrow> length (filter (is_edge u v) es) \<le> 1"
proof (induction es)
  case Nil
  then show ?case by simp
next
  case (Cons e es)
  show ?case
  proof (cases "is_edge u v e")
    case True
    then have "(u, v) \<notin> set (map pair_of es)" using Cons.prems by (auto simp: is_edge_def pair_of_def)
    then have "filter (is_edge u v) es = []"
      by (auto simp: filter_empty_conv is_edge_def pair_of_def image_iff)
    with True show ?thesis by simp
  next
    case False
    with Cons show ?thesis by simp
  qed
qed

lemma add_edge_relabel:
  assumes "node st reg a = Inr u" and "node st reg b = Inr v" and "u \<noteq> v"
      and "(u, v) \<in> edges_seen s" and "l \<noteq> []" and "AGraph_get_edge (graph s) u v = Inr e"
  shows "add_edge st reg s a b ah (Some l)
         = Inr (s\<lparr>graph := (graph s)\<lparr>edges :=
                   set_label u v (if truthy (label e) then the (label e) @ dot_newline @ l else l)
                             (edges (graph s))\<rparr>\<rparr>)"
  using assms by (simp add: add_edge_def Let_def)

lemma get_edge_of_seen:
  assumes "edges_ok s" and "(u, v) \<in> edges_seen s"
  shows "\<exists>e. AGraph_get_edge (graph s) u v = Inr e"
proof -
  have "(u, v) \<in> set (map pair_of (edges (graph s)))" using assms by (simp add: edges_ok_def)
  from get_edge_seen[OF this] show ?thesis by (auto simp: AGraph_get_edge_def)
qed

section \<open>One edge per pair of resolved identities\<close>

text \<open>
  Claim C1, as amended. After a full build the graph holds at most one edge for every
  pair of resolved node identities, and the pairs recorded as seen are exactly the pairs
  that have an edge, however many setup-task and task-dep relationships map to a pair.
  When a relationship maps onto a pair that is already recorded and supplies a non-empty
  label, no edge is added: the value assigned to the label of the existing edge is the
  new label when the edge had none, and otherwise the label read from the edge, the two
  characters backslash and n (the line break of a dot label) and the new label, so labels
  accumulate in the order of encounter. The edge holds the assigned value as it is, unless
  the value starts with \<^verbatim>\<open><\<close> and ends with \<^verbatim>\<open>>\<close>: pygraphviz stores that as an HTML string
  and the edge holds it without these two characters. Every other edge, the nodes and the
  recorded pairs stay as they were.
\<close>

theorem one_edge_per_pair_labels_accumulate:
  "(\<forall>p s. build reg st hz pa = Inr (p, s) \<longrightarrow>
       (\<forall>u v. length (filter (is_edge u v) (edges (graph s))) \<le> 1)
       \<and> distinct (map pair_of (edges (graph s)))
       \<and> edges_seen s = set (map pair_of (edges (graph s))))
   \<and> (\<forall>u v e l. node st reg a = Inr u \<and> node st reg b = Inr v \<and> u \<noteq> v
          \<and> (u, v) \<in> edges_seen s0 \<and> l \<noteq> [] \<and> AGraph_get_edge (graph s0) u v = Inr e \<longrightarrow>
       (\<exists>s1 val. add_edge st reg s0 a b ah (Some l) = Inr s1
          \<and> val = (case label e of
                     None \<Rightarrow> l
                   | Some old \<Rightarrow> if old = [] then l else old @ [CHR 0x5C, CHR ''n''] @ l)
          \<and> AGraph_get_edge (graph s1) u v
              = Inr (e\<lparr>label := Some (if hd val = CHR ''<'' \<and> last val = CHR ''>''
                                       then butlast (tl val) else val)\<rparr>)
          \<and> length (edges (graph s1)) = length (edges (graph s0))
          \<and> map pair_of (edges (graph s1)) = map pair_of (edges (graph s0))
          \<and> filter (\<lambda>x. \<not> is_edge u v x) (edges (graph s1))
              = filter (\<lambda>x. \<not> is_edge u v x) (edges (graph s0))
          \<and> nodes (graph s1) = nodes (graph s0)
          \<and> edges_seen s1 = edges_seen s0))
   \<and> (\<forall>u v. edges_ok s0 \<and> (u, v) \<in> edges_seen s0 \<longrightarrow>
          (\<exists>e. AGraph_get_edge (graph s0) u v = Inr e))"
proof (intro conjI allI impI)
  fix p s u v assume "build reg st hz pa = Inr (p, s)"
  then have ok: "edges_ok s" by (rule build_edges_ok)
  then show "distinct (map pair_of (edges (graph s)))" by (simp add: edges_ok_def)
  then show "length (filter (is_edge u v) (edges (graph s))) \<le> 1" by (rule at_most_one_of_distinct)
  show "edges_seen s = set (map pair_of (edges (graph s)))" using ok by (simp add: edges_ok_def)
next
  fix u v :: string and e :: edge and l :: string
  assume h: "node st reg a = Inr u \<and> node st reg b = Inr v \<and> u \<noteq> v
          \<and> (u, v) \<in> edges_seen s0 \<and> l \<noteq> [] \<and> AGraph_get_edge (graph s0) u v = Inr e"
  define nl where "nl = (if truthy (label e) then the (label e) @ dot_newline @ l else l)"
  let ?s1 = "s0\<lparr>graph := (graph s0)\<lparr>edges := set_label u v nl (edges (graph s0))\<rparr>\<rparr>"
  have run: "add_edge st reg s0 a b ah (Some l) = Inr ?s1"
    using h add_edge_relabel[of st reg a u b v s0 l e ah] unfolding nl_def by blast
  have nl: "nl = (case label e of None \<Rightarrow> l
                  | Some old \<Rightarrow> if old = [] then l else old @ [CHR 0x5C, CHR ''n''] @ l)"
    unfolding nl_def dot_newline_def by (cases "label e") simp_all
  have ne: "nl \<noteq> []" using h unfolding nl_def by simp
  have st: "agsafeset_label nl
            = (if hd nl = CHR ''<'' \<and> last nl = CHR ''>'' then butlast (tl nl) else nl)"
    using ne by (simp add: agsafeset_label_def)
  have f: "find (is_edge u v) (edges (graph s0)) = Some e"
    using h by (auto simp: AGraph_get_edge_def split: option.splits)
  have g: "AGraph_get_edge (graph ?s1) u v
           = Inr (e\<lparr>label := Some (if hd nl = CHR ''<'' \<and> last nl = CHR ''>''
                                    then butlast (tl nl) else nl)\<rparr>)"
    unfolding st[symmetric] by (simp add: AGraph_get_edge_def find_set_label f)
  have rest: "length (edges (graph ?s1)) = length (edges (graph s0))
          \<and> map pair_of (edges (graph ?s1)) = map pair_of (edges (graph s0))
          \<and> filter (\<lambda>x. \<not> is_edge u v x) (edges (graph ?s1))
              = filter (\<lambda>x. \<not> is_edge u v x) (edges (graph s0))
          \<and> nodes (graph ?s1) = nodes (graph s0)
          \<and> edges_seen ?s1 = edges_seen s0"
    by (simp add: filter_others_set_label)
  show "\<exists>s1 val. add_edge st reg s0 a b ah (Some l) = Inr s1
          \<and> val = (case label e of
                     None \<Rightarrow> l
                   | Some old \<Rightarrow> if old = [] then l else old @ [CHR 0x5C, CHR ''n''] @ l)
          \<and> AGraph_get_edge (graph s1) u v
              = Inr (e\<lparr>label := Some (if hd val = CHR ''<'' \<and> last val = CHR ''>''
                                       then butlast (tl val) else val)\<rparr>)
          \<and> length (edges (graph s1)) = length (edges (graph s0))
          \<and> map pair_of (edges (graph s1)) = map pair_of (edges (graph s0))
          \<and> filter (\<lambda>x. \<not> is_edge u v x) (edges (graph s1))
              = filter (\<lambda>x. \<not> is_edge u v x) (edges (graph s0))
          \<and> nodes (graph s1) = nodes (graph s0)
          \<and> edges_seen s1 = edges_seen s0"
    using run nl g rest by (intro exI[of _ ?s1] exI[of _ nl] conjI) blast+
next
  fix u v assume "edges_ok s0 \<and> (u, v) \<in> edges_seen s0"
  then show "\<exists>e. AGraph_get_edge (graph s0) u v = Inr e" using get_edge_of_seen by blast
qed

theorem one_edge_per_pair_labels_accumulate_witness:
  "(\<exists>p s. build reg_group False False (Some [''P'']) = Inr (p, s)
       \<and> p = [''P'', ''P:a'', ''P:b'', ''Q'']
       \<and> map pair_of (edges (graph s)) = [(''P'', ''Q'')]
       \<and> map label (edges (graph s)) = [Some (''f1.txt'' @ [CHR 0x5C, CHR ''n''] @ ''f2.txt'')]
       \<and> length (filter (is_edge ''P'' ''Q'') (edges (graph s))) \<le> 1
       \<and> edges_seen s = {(''P'', ''Q'')})
   \<and> (\<exists>s1. add_edge False reg_group group_state ''P:b'' ''Q'' '''' (Some ''f2.txt'') = Inr s1
       \<and> AGraph_get_edge (graph s1) ''P'' ''Q''
           = Inr \<lparr>source = ''P'', sink = ''Q'', arrowhead = '''',
                  label = Some (''f1.txt'' @ [CHR 0x5C, CHR ''n''] @ ''f2.txt'')\<rparr>
       \<and> length (edges (graph s1)) = 1
       \<and> edges_seen s1 = {(''P'', ''Q'')})
   \<and> (\<exists>s1. add_edge False reg_group group_state ''P:b'' ''Q'' '''' (Some ''b>'') = Inr s1
       \<and> AGraph_get_edge (graph s1) ''P'' ''Q''
           = Inr \<lparr>source = ''P'', sink = ''Q'', arrowhead = '''',
                  label = Some (''f1.txt'' @ [CHR 0x5C, CHR ''n''] @ ''b>'')\<rparr>)
   \<and> (\<exists>s1. add_edge False reg_setup setup_state ''T'' ''S'' '''' (Some ''<a>'') = Inr s1
       \<and> AGraph_get_edge (graph s1) ''T'' ''S''
           = Inr \<lparr>source = ''T'', sink = ''S'', arrowhead = ''empty'', label = Some ''a''\<rparr>)
   \<and> edges_ok group_state
   \<and> (\<exists>e. AGraph_get_edge (graph group_state) ''P'' ''Q'' = Inr e)"
proof -
  let ?x = "build reg_group False False (Some [''P''])"
  note inst = one_edge_per_pair_labels_accumulate[where reg = reg_group and st = False
      and hz = False and pa = "Some [''P'']" and a = "''P:b''" and b = "''Q''"
      and ?s0.0 = group_state and ah = "''''"]
  have "\<not> isl ?x" by code_simp
  then obtain p s where e: "?x = Inr (p, s)" by (cases ?x) auto
  have "fst (projr ?x) = [''P'', ''P:a'', ''P:b'', ''Q'']" by code_simp
  then have p: "p = [''P'', ''P:a'', ''P:b'', ''Q'']" by (simp add: e)
  have "map pair_of (edges (graph (snd (projr ?x)))) = [(''P'', ''Q'')]" by code_simp
  then have pairs: "map pair_of (edges (graph s)) = [(''P'', ''Q'')]" by (simp add: e)
  have "map label (edges (graph (snd (projr ?x))))
        = [Some (''f1.txt'' @ [CHR 0x5C, CHR ''n''] @ ''f2.txt'')]"
    by code_simp
  then have labels: "map label (edges (graph s))
        = [Some (''f1.txt'' @ [CHR 0x5C, CHR ''n''] @ ''f2.txt'')]"
    by (simp add: e)
  note t1 = inst[THEN conjunct1, rule_format, OF e]
  have one: "length (filter (is_edge ''P'' ''Q'') (edges (graph s))) \<le> 1"
    using t1 by blast
  have seen: "edges_seen s = {(''P'', ''Q'')}" using t1 pairs by simp
  have hn: "node False reg_group ''P:b'' = Inr ''P'' \<and> node False reg_group ''Q'' = Inr ''Q''
           \<and> ''P'' \<noteq> ''Q'' \<and> (''P'', ''Q'') \<in> edges_seen group_state"
    by (simp add: node_def tasks_get_def reg_group_def group_state_def)
  have ge: "AGraph_get_edge (graph group_state) ''P'' ''Q''
               = Inr \<lparr>source = ''P'', sink = ''Q'', arrowhead = '''', label = Some ''f1.txt''\<rparr>"
    by (simp add: group_state_def AGraph_get_edge_def is_edge_def)
  have h: "node False reg_group ''P:b'' = Inr ''P'' \<and> node False reg_group ''Q'' = Inr ''Q''
           \<and> ''P'' \<noteq> ''Q'' \<and> (''P'', ''Q'') \<in> edges_seen group_state \<and> ''f2.txt'' \<noteq> []
           \<and> AGraph_get_edge (graph group_state) ''P'' ''Q''
               = Inr \<lparr>source = ''P'', sink = ''Q'', arrowhead = '''', label = Some ''f1.txt''\<rparr>"
    using hn ge by simp
  from inst[THEN conjunct2, THEN conjunct1, rule_format, OF h]
  obtain s1 val where r: "add_edge False reg_group group_state ''P:b'' ''Q'' '''' (Some ''f2.txt'') = Inr s1"
    and v: "val = (case label \<lparr>source = ''P'', sink = ''Q'', arrowhead = '''', label = Some ''f1.txt''\<rparr> of
                     None \<Rightarrow> ''f2.txt''
                   | Some old \<Rightarrow> if old = [] then ''f2.txt''
                                 else old @ [CHR 0x5C, CHR ''n''] @ ''f2.txt'')"
    and g: "AGraph_get_edge (graph s1) ''P'' ''Q''
           = Inr (\<lparr>source = ''P'', sink = ''Q'', arrowhead = '''', label = Some ''f1.txt''\<rparr>
                    \<lparr>label := Some (if hd val = CHR ''<'' \<and> last val = CHR ''>''
                                    then butlast (tl val) else val)\<rparr>)"
    and n: "length (edges (graph s1)) = length (edges (graph group_state))"
    and k: "edges_seen s1 = edges_seen group_state"
    by blast
  have v': "val = ''f1.txt'' @ [CHR 0x5C, CHR ''n''] @ ''f2.txt''" using v by simp
  have g': "AGraph_get_edge (graph s1) ''P'' ''Q''
           = Inr \<lparr>source = ''P'', sink = ''Q'', arrowhead = '''',
                  label = Some (''f1.txt'' @ [CHR 0x5C, CHR ''n''] @ ''f2.txt'')\<rparr>"
    using g unfolding v' by simp
  have n': "length (edges (graph s1)) = 1" using n by (simp add: group_state_def)
  have k': "edges_seen s1 = {(''P'', ''Q'')}" using k by (simp add: group_state_def)
  have second: "\<exists>s1. add_edge False reg_group group_state ''P:b'' ''Q'' '''' (Some ''f2.txt'') = Inr s1
       \<and> AGraph_get_edge (graph s1) ''P'' ''Q''
           = Inr \<lparr>source = ''P'', sink = ''Q'', arrowhead = '''',
                  label = Some (''f1.txt'' @ [CHR 0x5C, CHR ''n''] @ ''f2.txt'')\<rparr>
       \<and> length (edges (graph s1)) = 1
       \<and> edges_seen s1 = {(''P'', ''Q'')}"
    using r g' n' k' by (intro exI[of _ s1] conjI)
  have h2: "node False reg_group ''P:b'' = Inr ''P'' \<and> node False reg_group ''Q'' = Inr ''Q''
           \<and> ''P'' \<noteq> ''Q'' \<and> (''P'', ''Q'') \<in> edges_seen group_state \<and> ''b>'' \<noteq> []
           \<and> AGraph_get_edge (graph group_state) ''P'' ''Q''
               = Inr \<lparr>source = ''P'', sink = ''Q'', arrowhead = '''', label = Some ''f1.txt''\<rparr>"
    using hn ge by simp
  from inst[THEN conjunct2, THEN conjunct1, rule_format, OF h2]
  obtain s2 val2 where r2: "add_edge False reg_group group_state ''P:b'' ''Q'' '''' (Some ''b>'') = Inr s2"
    and v2: "val2 = (case label \<lparr>source = ''P'', sink = ''Q'', arrowhead = '''', label = Some ''f1.txt''\<rparr> of
                     None \<Rightarrow> ''b>''
                   | Some old \<Rightarrow> if old = [] then ''b>''
                                 else old @ [CHR 0x5C, CHR ''n''] @ ''b>'')"
    and g2: "AGraph_get_edge (graph s2) ''P'' ''Q''
           = Inr (\<lparr>source = ''P'', sink = ''Q'', arrowhead = '''', label = Some ''f1.txt''\<rparr>
                    \<lparr>label := Some (if hd val2 = CHR ''<'' \<and> last val2 = CHR ''>''
                                    then butlast (tl val2) else val2)\<rparr>)"
    by blast
  have v2': "val2 = ''f1.txt'' @ [CHR 0x5C, CHR ''n''] @ ''b>''" using v2 by simp
  have g2': "AGraph_get_edge (graph s2) ''P'' ''Q''
           = Inr \<lparr>source = ''P'', sink = ''Q'', arrowhead = '''',
                  label = Some (''f1.txt'' @ [CHR 0x5C, CHR ''n''] @ ''b>'')\<rparr>"
    using g2 unfolding v2' by simp
  have third: "\<exists>s1. add_edge False reg_group group_state ''P:b'' ''Q'' '''' (Some ''b>'') = Inr s1
       \<and> AGraph_get_edge (graph s1) ''P'' ''Q''
           = Inr \<lparr>source = ''P'', sink = ''Q'', arrowhead = '''',
                  label = Some (''f1.txt'' @ [CHR 0x5C, CHR ''n''] @ ''b>'')\<rparr>"
    using r2 g2' by (intro exI[of _ s2] conjI)
  have h3: "node False reg_setup ''T'' = Inr ''T'' \<and> node False reg_setup ''S'' = Inr ''S''
           \<and> ''T'' \<noteq> ''S'' \<and> (''T'', ''S'') \<in> edges_seen setup_state \<and> ''<a>'' \<noteq> []
           \<and> AGraph_get_edge (graph setup_state) ''T'' ''S''
               = Inr \<lparr>source = ''T'', sink = ''S'', arrowhead = ''empty'', label = None\<rparr>"
    by (simp add: node_def tasks_get_def reg_setup_def plain_task_def setup_state_def
                  AGraph_get_edge_def is_edge_def)
  from one_edge_per_pair_labels_accumulate[where reg = reg_setup and st = False
      and a = "''T''" and b = "''S''" and ?s0.0 = setup_state and ah = "''''",
      THEN conjunct2, THEN conjunct1, rule_format, OF h3]
  obtain s3 val3 where r3: "add_edge False reg_setup setup_state ''T'' ''S'' '''' (Some ''<a>'') = Inr s3"
    and v3: "val3 = (case label \<lparr>source = ''T'', sink = ''S'', arrowhead = ''empty'', label = None\<rparr> of
                     None \<Rightarrow> ''<a>''
                   | Some old \<Rightarrow> if old = [] then ''<a>''
                                 else old @ [CHR 0x5C, CHR ''n''] @ ''<a>'')"
    and g3: "AGraph_get_edge (graph s3) ''T'' ''S''
           = Inr (\<lparr>source = ''T'', sink = ''S'', arrowhead = ''empty'', label = None\<rparr>
                    \<lparr>label := Some (if hd val3 = CHR ''<'' \<and> last val3 = CHR ''>''
                                    then butlast (tl val3) else val3)\<rparr>)"
    by blast
  have v3': "val3 = ''<a>''" using v3 by simp
  have g3': "AGraph_get_edge (graph s3) ''T'' ''S''
           = Inr \<lparr>source = ''T'', sink = ''S'', arrowhead = ''empty'', label = Some ''a''\<rparr>"
    using g3 unfolding v3' by simp
  have fourth: "\<exists>s1. add_edge False reg_setup setup_state ''T'' ''S'' '''' (Some ''<a>'') = Inr s1
       \<and> AGraph_get_edge (graph s1) ''T'' ''S''
           = Inr \<lparr>source = ''T'', sink = ''S'', arrowhead = ''empty'', label = Some ''a''\<rparr>"
    using r3 g3' by (intro exI[of _ s3] conjI)
  have first: "\<exists>p s. build reg_group False False (Some [''P'']) = Inr (p, s)
       \<and> p = [''P'', ''P:a'', ''P:b'', ''Q'']
       \<and> map pair_of (edges (graph s)) = [(''P'', ''Q'')]
       \<and> map label (edges (graph s)) = [Some (''f1.txt'' @ [CHR 0x5C, CHR ''n''] @ ''f2.txt'')]
       \<and> length (filter (is_edge ''P'' ''Q'') (edges (graph s))) \<le> 1
       \<and> edges_seen s = {(''P'', ''Q'')}"
    using e p pairs labels one seen by (intro exI[of _ p] exI[of _ s] conjI)
  have ok: "edges_ok group_state"
    by (simp add: edges_ok_def group_state_def pair_of_def node_names_def)
  have mem: "(''P'', ''Q'') \<in> edges_seen group_state" by (simp add: group_state_def)
  note fifth = inst[THEN conjunct2, THEN conjunct2, THEN spec, THEN spec, THEN mp, OF conjI[OF ok mem]]
  show ?thesis using first second third fourth ok fifth by (intro conjI)
qed

text \<open>
  The claim as it was stated fails for a label that pygraphviz takes for an HTML string.
  In the registry below the sub-task \<^verbatim>\<open>P:a\<close> records the edge from \<^verbatim>\<open>P\<close> to \<^verbatim>\<open>Q\<close> without
  a label, then the sub-task \<^verbatim>\<open>P:b\<close> supplies the label \<^verbatim>\<open><a>\<close> for the same pair: the edge
  does not get that label, it holds \<^verbatim>\<open>a\<close>.
\<close>

theorem labels_accumulate_html_counterexample:
  "edge_label reg_html ''P:a'' ''Q'' = None
   \<and> edge_label reg_html ''P:b'' ''Q'' = Some ''<a>''
   \<and> build reg_html False False (Some [''P''])
       = Inr ([''P'', ''P:a'', ''P:b'', ''Q''],
              \<lparr>graph = \<lparr>rankdir = None,
                         nodes = [\<lparr>node_name = ''P'', peripheries = Some ''2''\<rparr>,
                                  \<lparr>node_name = ''Q'', peripheries = None\<rparr>],
                         edges = [\<lparr>source = ''P'', sink = ''Q'', arrowhead = '''',
                                   label = Some ''a''\<rparr>]\<rparr>,
               edges_seen = {(''P'', ''Q'')}\<rparr>)
   \<and> Some ''a'' \<noteq> Some ''<a>''"
proof -
  have a: "edge_label reg_html ''P:a'' ''Q'' = None" by code_simp
  have b: "edge_label reg_html ''P:b'' ''Q'' = Some ''<a>''" by code_simp
  have c: "build reg_html False False (Some [''P''])
       = Inr ([''P'', ''P:a'', ''P:b'', ''Q''],
              \<lparr>graph = \<lparr>rankdir = None,
                         nodes = [\<lparr>node_name = ''P'', peripheries = Some ''2''\<rparr>,
                                  \<lparr>node_name = ''Q'', peripheries = None\<rparr>],
                         edges = [\<lparr>source = ''P'', sink = ''Q'', arrowhead = '''',
                                   label = Some ''a''\<rparr>]\<rparr>,
               edges_seen = {(''P'', ''Q'')}\<rparr>)"
    by code_simp
  show ?thesis using a b c by simp
qed

section \<open>Self-loops are elided\<close>

text \<open>
  Claim C3. No edge of a built graph has the same resolved source and sink. Whenever
  \<^verbatim>\<open>add_edge\<close> is called with two task identities that resolve to the same node identity,
  as for a sub-task and its collapsed parent, it returns the command object unchanged:
  nothing is added to the graph or to the set of seen pairs.
\<close>

theorem no_self_loops:
  "(\<forall>p s. build reg st hz pa = Inr (p, s) \<longrightarrow> (\<forall>e\<in>set (edges (graph s)). source e \<noteq> sink e))
   \<and> (\<forall>u. node st reg a = Inr u \<and> node st reg b = Inr u \<longrightarrow>
          add_edge st reg s0 a b ah l = Inr s0)"
proof (intro conjI allI impI ballI)
  fix p s e assume "build reg st hz pa = Inr (p, s)" and e: "e \<in> set (edges (graph s))"
  then have "edges_ok s" using build_edges_ok by blast
  with e show "source e \<noteq> sink e" by (auto simp: edges_ok_def pair_of_def)
next
  fix u assume "node st reg a = Inr u \<and> node st reg b = Inr u"
  then show "add_edge st reg s0 a b ah l = Inr s0" by (simp add: add_edge_def)
qed

theorem no_self_loops_witness:
  "node False reg_group ''P'' = Inr ''P'' \<and> node False reg_group ''P:a'' = Inr ''P''
   \<and> add_edge False reg_group group_state ''P'' ''P:a'' '''' (Some ''x'') = Inr group_state
   \<and> (\<exists>p s. build reg_group False False (Some [''P'']) = Inr (p, s)
          \<and> map pair_of (edges (graph s)) = [(''P'', ''Q'')]
          \<and> (\<forall>e\<in>set (edges (graph s)). source e \<noteq> sink e))"
proof -
  let ?x = "build reg_group False False (Some [''P''])"
  note inst = no_self_loops[where reg = reg_group and st = False and hz = False
      and pa = "Some [''P'']" and a = "''P''" and b = "''P:a''" and ?s0.0 = group_state
      and ah = "''''" and l = "Some ''x''"]
  have h: "node False reg_group ''P'' = Inr ''P'' \<and> node False reg_group ''P:a'' = Inr ''P''"
    by (simp add: node_def tasks_get_def reg_group_def)
  note a = inst[THEN conjunct2, rule_format, OF h]
  have "\<not> isl ?x" by code_simp
  then obtain p s where e: "?x = Inr (p, s)" by (cases ?x) auto
  have "map pair_of (edges (graph (snd (projr ?x)))) = [(''P'', ''Q'')]" by code_simp
  then have pairs: "map pair_of (edges (graph s)) = [(''P'', ''Q'')]" by (simp add: e)
  note b = inst[THEN conjunct1, THEN spec, THEN spec, THEN mp, OF e]
  have c: "\<exists>p s. build reg_group False False (Some [''P'']) = Inr (p, s)
          \<and> map pair_of (edges (graph s)) = [(''P'', ''Q'')]
          \<and> (\<forall>e\<in>set (edges (graph s)). source e \<noteq> sink e)"
    using e pairs b by (intro exI[of _ p] exI[of _ s] conjI)
  show ?thesis using conjunct1[OF h] conjunct2[OF h] a c by (intro conjI)
qed

section \<open>The arrowhead of a merged edge\<close>

lemma get_edge_set_label:
  "AGraph_get_edge (g\<lparr>edges := set_label u v l (edges g)\<rparr>) u v
   = (case AGraph_get_edge g u v of Inl x \<Rightarrow> Inl x
      | Inr e \<Rightarrow> Inr (e\<lparr>label := Some (agsafeset_label l)\<rparr>))"
  by (simp add: AGraph_get_edge_def find_set_label split: option.splits)

text \<open>
  Claim C9. When a relationship maps onto a pair of resolved identities that is already
  recorded, \<^verbatim>\<open>add_edge\<close> leaves the arrowhead of every edge as it was, and the end points,
  the nodes and the recorded pairs as well: only a label may change. So when a setup-task
  and a task-dep relationship collapse onto one pair, the edge that is kept carries the
  arrowhead of the relationship met first, and the arrowhead of the other one is dropped.
\<close>

theorem merged_edge_keeps_first_arrowhead:
  "\<forall>u v s1. node st reg a = Inr u \<and> node st reg b = Inr v \<and> (u, v) \<in> edges_seen s0
       \<and> add_edge st reg s0 a b ah l = Inr s1 \<longrightarrow>
     map arrowhead (edges (graph s1)) = map arrowhead (edges (graph s0))
     \<and> map pair_of (edges (graph s1)) = map pair_of (edges (graph s0))
     \<and> nodes (graph s1) = nodes (graph s0)
     \<and> edges_seen s1 = edges_seen s0
     \<and> (\<forall>e. AGraph_get_edge (graph s0) u v = Inr e \<longrightarrow>
           (\<exists>e'. AGraph_get_edge (graph s1) u v = Inr e' \<and> arrowhead e' = arrowhead e))"
proof (intro allI impI)
  fix u v :: string and s1 :: cmd
  assume h: "node st reg a = Inr u \<and> node st reg b = Inr v \<and> (u, v) \<in> edges_seen s0
       \<and> add_edge st reg s0 a b ah l = Inr s1"
  then have run: "add_edge st reg s0 a b ah l = Inr s1" by blast
  from run show "map arrowhead (edges (graph s1)) = map arrowhead (edges (graph s0))
     \<and> map pair_of (edges (graph s1)) = map pair_of (edges (graph s0))
     \<and> nodes (graph s1) = nodes (graph s0)
     \<and> edges_seen s1 = edges_seen s0
     \<and> (\<forall>e. AGraph_get_edge (graph s0) u v = Inr e \<longrightarrow>
           (\<exists>e'. AGraph_get_edge (graph s1) u v = Inr e' \<and> arrowhead e' = arrowhead e))"
  proof (cases rule: add_edge_cases)
    case same
    then show ?thesis by simp
  next
    case (relabel u' v' nl)
    with h have uv: "u' = u" "v' = v" by simp_all
    show ?thesis unfolding relabel(6) uv by (simp add: get_edge_set_label)
  next
    case (new u' v')
    with h have "u' = u" "v' = v" by simp_all
    with new(4) h show ?thesis by simp
  qed
qed

theorem merged_edge_keeps_first_arrowhead_witness:
  "(\<exists>s1. add_edge False reg_setup setup_state ''T'' ''S'' '''' (Some ''f.txt'') = Inr s1
        \<and> map arrowhead (edges (graph s1)) = [''empty'']
        \<and> map pair_of (edges (graph s1)) = [(''T'', ''S'')]
        \<and> (\<exists>e'. AGraph_get_edge (graph s1) ''T'' ''S'' = Inr e' \<and> arrowhead e' = ''empty''))
   \<and> build reg_setup False False (Some [''T'']) = Inr ([''T'', ''S''], setup_state)
   \<and> map arrowhead (edges (graph setup_state)) = [''empty'']"
proof -
  let ?x = "add_edge False reg_setup setup_state ''T'' ''S'' '''' (Some ''f.txt'')"
  have "\<not> isl ?x" by code_simp
  then obtain s1 where r: "?x = Inr s1" by (cases ?x) auto
  have h: "node False reg_setup ''T'' = Inr ''T'' \<and> node False reg_setup ''S'' = Inr ''S''
           \<and> (''T'', ''S'') \<in> edges_seen setup_state \<and> ?x = Inr s1"
    using r by (simp add: node_def tasks_get_def reg_setup_def plain_task_def setup_state_def)
  note k = merged_edge_keeps_first_arrowhead[where st = False and reg = reg_setup and a = "''T''"
         and b = "''S''" and ?s0.0 = setup_state and ah = "''''" and l = "Some ''f.txt''",
         THEN spec, THEN spec, THEN spec, THEN mp, OF h]
  have a: "map arrowhead (edges (graph setup_state)) = [''empty'']"
    by (simp add: setup_state_def)
  have p: "map pair_of (edges (graph setup_state)) = [(''T'', ''S'')]"
    by (simp add: setup_state_def pair_of_def)
  have g: "AGraph_get_edge (graph setup_state) ''T'' ''S''
           = Inr \<lparr>source = ''T'', sink = ''S'', arrowhead = ''empty'', label = None\<rparr>"
    by (simp add: setup_state_def AGraph_get_edge_def is_edge_def)
  have a1: "map arrowhead (edges (graph s1)) = [''empty'']" using k a by simp
  have p1: "map pair_of (edges (graph s1)) = [(''T'', ''S'')]" using k p by simp
  from k[THEN conjunct2, THEN conjunct2, THEN conjunct2, THEN conjunct2, THEN spec, THEN mp, OF g]
  have g1: "\<exists>e'. AGraph_get_edge (graph s1) ''T'' ''S'' = Inr e' \<and> arrowhead e' = ''empty''"
    by simp
  have first: "\<exists>s1. add_edge False reg_setup setup_state ''T'' ''S'' '''' (Some ''f.txt'') = Inr s1
        \<and> map arrowhead (edges (graph s1)) = [''empty'']
        \<and> map pair_of (edges (graph s1)) = [(''T'', ''S'')]
        \<and> (\<exists>e'. AGraph_get_edge (graph s1) ''T'' ''S'' = Inr e' \<and> arrowhead e' = ''empty'')"
    using r a1 p1 g1 by (intro exI[of _ s1] conjI)
  have b: "build reg_setup False False (Some [''T'']) = Inr ([''T'', ''S''], setup_state)"
    by code_simp
  show ?thesis using first b a by (intro conjI)
qed

section \<open>Facts about what a traversal leaves behind\<close>

lemma grows_refl [simp]: "grows s s"
  by (simp add: grows_def)

lemma grows_trans: "grows s s1 \<Longrightarrow> grows s1 s2 \<Longrightarrow> grows s s2"
  by (auto simp: grows_def)

lemma add_edge_grows:
  assumes "add_edge st reg s a b ah l = Inr s'"
  shows "grows s s'"
  using assms
proof (cases rule: add_edge_cases)
  case same
  then show ?thesis by simp
next
  case (relabel u v nl)
  then show ?thesis by (simp add: grows_def node_names_def)
next
  case (new u v)
  then show ?thesis by (auto simp: grows_def)
qed

lemma add_task_node_grows: "grows s (add_task_node st t s)"
  by (auto simp: add_task_node_def grows_def Let_def)

lemma add_edge_records:
  assumes "add_edge st reg s a b ah l = Inr s'"
  shows "\<exists>u v. node st reg a = Inr u \<and> node st reg b = Inr v \<and> (u \<noteq> v \<longrightarrow> (u, v) \<in> edges_seen s')"
proof -
  from assms obtain u where u: "node st reg a = Inr u"
    by (cases "node st reg a") (simp_all add: add_edge_def)
  from assms u obtain v where v: "node st reg b = Inr v"
    by (cases "node st reg b") (simp_all add: add_edge_def)
  have "u \<noteq> v \<longrightarrow> (u, v) \<in> edges_seen s'"
  proof
    assume ne: "u \<noteq> v"
    show "(u, v) \<in> edges_seen s'"
    proof (cases "(u, v) \<in> edges_seen s")
      case True
      then show ?thesis using add_edge_grows[OF assms] by (auto simp: grows_def)
    next
      case False
      with assms u v ne show ?thesis by (auto simp: add_edge_def)
    qed
  qed
  with u v show ?thesis by blast
qed

lemma for_sinks_grows:
  assumes "for_sinks st reg pr n ah ds (s, q) = Inr (s', q')"
  shows "grows s s'"
  by (rule for_sinks_preserves[where P = "grows s", OF _ assms])
     (auto intro: grows_trans add_edge_grows)

lemma for_sinks_records:
  "for_sinks st reg pr n ah ds (s, q) = Inr (s', q') \<Longrightarrow>
   \<forall>d\<in>set ds. \<exists>u v. node st reg n = Inr u \<and> node st reg d = Inr v \<and> (u \<noteq> v \<longrightarrow> (u, v) \<in> edges_seen s')"
proof (induction ds arbitrary: s q)
  case Nil
  then show ?case by simp
next
  case (Cons x xs)
  from Cons.prems obtain s1 where a: "add_edge st reg s n x ah (edge_label reg n x) = Inr s1"
    by (cases "add_edge st reg s n x ah (edge_label reg n x)") simp_all
  with Cons.prems obtain q1 where r: "for_sinks st reg pr n ah xs (s1, q1) = Inr (s', q')"
    by simp
  from add_edge_records[OF a] obtain u v where
    uv: "node st reg n = Inr u" "node st reg x = Inr v" "u \<noteq> v \<longrightarrow> (u, v) \<in> edges_seen s1"
    by blast
  have "edges_seen s1 \<subseteq> edges_seen s'" using for_sinks_grows[OF r] by (simp add: grows_def)
  with uv have "\<exists>u v. node st reg n = Inr u \<and> node st reg x = Inr v \<and> (u \<noteq> v \<longrightarrow> (u, v) \<in> edges_seen s')"
    by blast
  with Cons.IH[OF r] show ?case by simp
qed

lemma expand_grows:
  assumes "expand st reg pr t (s, q) = Inr (s', q')"
  shows "grows s s'"
  using assms
proof (cases rule: expand_Inr)
  case (1 s2 q2)
  show ?thesis
    using add_task_node_grows[of s st t] for_sinks_grows[OF 1(1)] for_sinks_grows[OF 1(2)]
    by (blast intro: grows_trans)
qed

lemma expand_serves:
  assumes "expand st reg pr t (s, q) = Inr (s', q')" and "tasks_get reg (name t) = Some t"
  shows "served st reg s' (name t)"
  using assms(1)
proof (cases rule: expand_Inr)
  case (1 s2 q2)
  have g2: "grows (add_task_node st t s) s2" using for_sinks_grows[OF 1(1)] .
  have g3: "grows s2 s'" using for_sinks_grows[OF 1(2)] .
  have nd: "\<not> truthy (subtask_of t) \<or> st \<Longrightarrow> name t \<in> set (node_names (graph s'))"
  proof -
    assume "\<not> truthy (subtask_of t) \<or> st"
    then have "name t \<in> set (node_names (graph (add_task_node st t s)))"
      by (auto simp: add_task_node_def Let_def)
    then show ?thesis using g2 g3 by (auto simp: grows_def)
  qed
  have e1: "\<forall>d\<in>set (setup_tasks t). \<exists>u v. node st reg (name t) = Inr u \<and> node st reg d = Inr v
              \<and> (u \<noteq> v \<longrightarrow> (u, v) \<in> edges_seen s')"
  proof
    fix d assume "d \<in> set (setup_tasks t)"
    with for_sinks_records[OF 1(1)] obtain u v where
      "node st reg (name t) = Inr u" "node st reg d = Inr v" "u \<noteq> v \<longrightarrow> (u, v) \<in> edges_seen s2"
      by blast
    moreover have "edges_seen s2 \<subseteq> edges_seen s'" using g3 by (simp add: grows_def)
    ultimately show "\<exists>u v. node st reg (name t) = Inr u \<and> node st reg d = Inr v
              \<and> (u \<noteq> v \<longrightarrow> (u, v) \<in> edges_seen s')" by blast
  qed
  have e2: "\<forall>d\<in>set (task_dep t). \<exists>u v. node st reg (name t) = Inr u \<and> node st reg d = Inr v
              \<and> (u \<noteq> v \<longrightarrow> (u, v) \<in> edges_seen s')"
    using for_sinks_records[OF 1(2)] .
  show ?thesis unfolding served_def using assms(2) nd e1 e2 by (auto simp: deps_def)
qed

lemma served_mono: "served st reg s x \<Longrightarrow> grows s s' \<Longrightarrow> served st reg s' x"
  unfolding served_def grows_def by (meson subsetD)

lemma populate_serves:
  "populate st reg q p s = Inr (p', s') \<Longrightarrow> (\<forall>x\<in>set p. served st reg s x)
   \<Longrightarrow> (\<forall>x\<in>set p'. served st reg s' x)"
proof (induction q p s rule: populate_induct_fixed[where st = st and reg = reg])
  case (empty p s)
  then show ?case by simp
next
  case (step k q p s)
  from step.prems(1) show ?case
  proof (cases rule: populate_step)
    case (skip t)
    then show ?thesis using step.IH(1)[of t] step.prems(2) by simp
  next
    case (visit t s1 q1)
    have t': "tasks_get reg (name t) = Some t" using visit by simp
    have "served st reg s1 k" using expand_serves[OF _ t'] visit by auto
    moreover have "\<forall>x\<in>set p. served st reg s1 x"
      using step.prems(2) served_mono expand_grows[OF visit(4)] by blast
    ultimately have "\<forall>x\<in>set (p @ [name t]). served st reg s1 x" using visit(2) by simp
    then show ?thesis using step.IH(2)[of t s1 q1] visit by simp
  qed
qed

lemma build_serves:
  assumes "build reg st hz pa = Inr (p, s)"
  shows "\<forall>x\<in>set p. served st reg s x"
  using populate_serves[of st reg "initial_queue reg pa" "[]" "initial_cmd hz" p s] assms
  by (simp add: build_def)

section \<open>Facts about a traversal that cannot fail\<close>

lemma node_present: "tasks_get reg a \<noteq> None \<Longrightarrow> \<exists>u. node st reg a = Inr u"
  by (cases st; cases "tasks_get reg a") (simp_all add: node_def)

lemma add_edge_succeeds:
  assumes "edges_ok s" and "tasks_get reg a \<noteq> None" and "tasks_get reg b \<noteq> None"
  shows "\<exists>s'. add_edge st reg s a b ah l = Inr s'"
proof -
  obtain u where u: "node st reg a = Inr u" using node_present[OF assms(2)] by blast
  obtain v where v: "node st reg b = Inr v" using node_present[OF assms(3)] by blast
  show ?thesis
  proof (cases "u \<noteq> v \<and> (u, v) \<in> edges_seen s \<and> truthy l")
    case True
    with get_edge_of_seen[OF assms(1), of u v] obtain e where "AGraph_get_edge (graph s) u v = Inr e"
      by blast
    with True u v show ?thesis by (simp add: add_edge_def Let_def)
  next
    case False
    with u v show ?thesis by (auto simp: add_edge_def)
  qed
qed

lemma for_sinks_succeeds:
  assumes "tasks_get reg n \<noteq> None"
  shows "edges_ok s \<Longrightarrow> \<forall>d\<in>set ds. tasks_get reg d \<noteq> None
         \<Longrightarrow> \<exists>s' q'. for_sinks st reg pr n ah ds (s, q) = Inr (s', q') \<and> edges_ok s'"
proof (induction ds arbitrary: s q)
  case Nil
  then show ?case by simp
next
  case (Cons x xs)
  have "tasks_get reg x \<noteq> None" using Cons.prems(2) by simp
  from add_edge_succeeds[OF Cons.prems(1) assms this, of st ah "edge_label reg n x"]
  obtain s1 where a: "add_edge st reg s n x ah (edge_label reg n x) = Inr s1" by blast
  have ok: "edges_ok s1" using add_edge_edges_ok[OF a Cons.prems(1)] .
  have "\<forall>d\<in>set xs. tasks_get reg d \<noteq> None" using Cons.prems(2) by simp
  from Cons.IH[OF ok this] a show ?case by simp
qed

lemma expand_succeeds:
  assumes "tasks_get reg (name t) \<noteq> None" and "edges_ok s"
      and "\<forall>d\<in>set (deps t). tasks_get reg d \<noteq> None"
  shows "\<exists>s' q'. expand st reg pr t (s, q) = Inr (s', q') \<and> edges_ok s'"
proof -
  have ok1: "edges_ok (add_task_node st t s)" using assms(2) by (rule add_task_node_edges_ok)
  have d1: "\<forall>d\<in>set (setup_tasks t). tasks_get reg d \<noteq> None" using assms(3) by (simp add: deps_def)
  have d2: "\<forall>d\<in>set (task_dep t). tasks_get reg d \<noteq> None" using assms(3) by (simp add: deps_def)
  from for_sinks_succeeds[OF assms(1) ok1 d1, of st pr "''empty''" q]
  obtain s2 q2 where a: "for_sinks st reg pr (name t) ''empty'' (setup_tasks t) (add_task_node st t s, q) = Inr (s2, q2)"
    and ok2: "edges_ok s2" by blast
  from for_sinks_succeeds[OF assms(1) ok2 d2, of st pr "''''" q2]
  obtain s3 q3 where b: "for_sinks st reg pr (name t) '''' (task_dep t) (s2, q2) = Inr (s3, q3)"
    and ok3: "edges_ok s3" by blast
  show ?thesis using a b ok3 by (simp add: expand_def)
qed

lemma populate_succeeds:
  assumes present: "\<forall>k\<in>R. tasks_get reg k \<noteq> None"
      and closed: "\<And>k t d. k \<in> R \<Longrightarrow> tasks_get reg k = Some t \<Longrightarrow> d \<in> set (deps t) \<Longrightarrow> d \<in> R"
  shows "set q \<subseteq> R \<Longrightarrow> edges_ok s \<Longrightarrow> \<exists>p' s'. populate st reg q p s = Inr (p', s')"
proof (induction q p s rule: populate_induct_fixed[where st = st and reg = reg])
  case (empty p s)
  then show ?case by simp
next
  case (step k q p s)
  have kR: "k \<in> R" using step.prems(1) by simp
  then obtain t where t: "tasks_get reg k = Some t" using present by auto
  then have nt: "name t = k" using tasks_get_Some by blast
  have qR: "set q \<subseteq> R" using step.prems(1) by simp
  show ?case
  proof (cases "name t \<in> set p")
    case True
    from step.IH(1)[OF t True qR step.prems(2)] t True show ?thesis by simp
  next
    case False
    have dR: "\<forall>d\<in>set (deps t). d \<in> R" using closed[OF kR t] by blast
    then have dp: "\<forall>d\<in>set (deps t). tasks_get reg d \<noteq> None" using present by blast
    have "tasks_get reg (name t) \<noteq> None" using t nt by simp
    from expand_succeeds[OF this step.prems(2) dp, of st "p @ [name t]" q]
    obtain s1 q1 where e: "expand st reg (p @ [name t]) t (s, q) = Inr (s1, q1)"
      and ok: "edges_ok s1" by blast
    have "q1 = q @ filter (\<lambda>d. d \<notin> set (p @ [name t])) (deps t)" using expand_queue[OF e] .
    then have "set q1 \<subseteq> R" using qR dR by auto
    from step.IH(2)[OF t False e this ok] t False e show ?thesis by simp
  qed
qed

lemma build_succeeds:
  assumes "\<forall>k\<in>reachable reg (set (initial_queue reg pa)). tasks_get reg k \<noteq> None"
  shows "\<exists>p s. build reg st hz pa = Inr (p, s)"
  unfolding build_def
proof (rule populate_succeeds[where R = "reachable reg (set (initial_queue reg pa))"])
  show "\<forall>k\<in>reachable reg (set (initial_queue reg pa)). tasks_get reg k \<noteq> None" using assms .
  show "set (initial_queue reg pa) \<subseteq> reachable reg (set (initial_queue reg pa))"
    by (auto intro: reachable.root)
  show "edges_ok (initial_cmd hz)" by (rule initial_cmd_edges_ok)
next
  fix k t d
  assume "k \<in> reachable reg (set (initial_queue reg pa))" "tasks_get reg k = Some t" "d \<in> set (deps t)"
  then show "d \<in> reachable reg (set (initial_queue reg pa))" by (rule reachable.dep)
qed

lemma count_list_distinct: "distinct xs \<Longrightarrow> x \<in> set xs \<Longrightarrow> count_list xs x = 1"
  by (induction xs) (auto simp: count_list_0_iff)

lemma set_initial_queue:
  "set (initial_queue reg pa)
   = (case pa of None \<Rightarrow> name ` set reg
      | Some ps \<Rightarrow> if ps = [] then name ` set reg else set ps)"
  by (simp add: initial_queue_def tasks_keys_def split: option.splits)

lemma populate_processed_present:
  "populate st reg q p s = Inr (p', s') \<Longrightarrow> (\<forall>x\<in>set p. tasks_get reg x \<noteq> None)
   \<Longrightarrow> (\<forall>x\<in>set p'. tasks_get reg x \<noteq> None)"
proof (induction q p s rule: populate_induct_fixed[where st = st and reg = reg])
  case (empty p s)
  then show ?case by simp
next
  case (step k q p s)
  from step.prems(1) show ?case
  proof (cases rule: populate_step)
    case (skip t)
    then show ?thesis using step.IH(1)[of t] step.prems(2) by simp
  next
    case (visit t s1 q1)
    have "\<forall>x\<in>set (p @ [name t]). tasks_get reg x \<noteq> None"
      using step.prems(2) visit(1,2) by simp
    then show ?thesis using step.IH(2)[of t s1 q1] visit by simp
  qed
qed

lemma build_processed_present:
  assumes "build reg st hz pa = Inr (p, s)"
  shows "set p \<subseteq> name ` set reg"
proof
  fix x assume "x \<in> set p"
  moreover have "\<forall>x\<in>set p. tasks_get reg x \<noteq> None"
    using populate_processed_present[of st reg "initial_queue reg pa" "[]" "initial_cmd hz" p s] assms
    by (simp add: build_def)
  ultimately obtain t where "tasks_get reg x = Some t" by auto
  then show "x \<in> name ` set reg" using tasks_get_Some by force
qed

section \<open>The traversal visits every reachable task once\<close>

text \<open>
  Claim C2. The breadth-first traversal is a total function: it returns for every input,
  and it returns a graph whenever every identity reachable from the roots is in the
  registry, with diamonds and repeated edges alike. The roots are the root arguments, and
  all the names of the registry when no root argument is given (\<^verbatim>\<open>pos_args\<close> is \<^verbatim>\<open>None\<close>
  or empty). When the traversal returns a graph, the processed identities are exactly the
  ones reachable from the roots, each processed once, which with no root argument are
  exactly the names of the registry; node names and edge pairs occur once each; every
  processed task that is to be shown has exactly one node, and each of its relationships
  whose end points resolve to different identities has exactly one edge. So in a diamond,
  where D is a dependency of B and of C, which are dependencies of A, building from A
  gives one node for D, one edge from B to D and one edge from C to D.
\<close>

theorem traversal_visits_reachable_once:
  "(\<forall>p s. build reg st hz pa = Inr (p, s) \<longrightarrow>
       distinct p
       \<and> set p = reachable reg (case pa of None \<Rightarrow> name ` set reg
                                 | Some ps \<Rightarrow> if ps = [] then name ` set reg else set ps)
       \<and> distinct (node_names (graph s)) \<and> distinct (map pair_of (edges (graph s)))
       \<and> (\<forall>x\<in>set p. \<forall>t. tasks_get reg x = Some t \<longrightarrow>
             ((\<not> truthy (subtask_of t) \<or> st) \<longrightarrow> count_list (node_names (graph s)) x = 1)
             \<and> (\<forall>d\<in>set (deps t). \<exists>u v. node st reg x = Inr u \<and> node st reg d = Inr v
                   \<and> (u \<noteq> v \<longrightarrow> count_list (map pair_of (edges (graph s))) (u, v) = 1)))
       \<and> (pa = None \<or> pa = Some [] \<longrightarrow> set p = name ` set reg))
   \<and> ((\<forall>k\<in>reachable reg (case pa of None \<Rightarrow> name ` set reg
                              | Some ps \<Rightarrow> if ps = [] then name ` set reg else set ps).
          tasks_get reg k \<noteq> None) \<longrightarrow>
         (\<exists>p s. build reg st hz pa = Inr (p, s)))"
proof (intro conjI allI impI)
  fix p s assume b: "build reg st hz pa = Inr (p, s)"
  show "distinct p" using build_processed[OF b] by simp
  show reach: "set p = reachable reg (case pa of None \<Rightarrow> name ` set reg
                                 | Some ps \<Rightarrow> if ps = [] then name ` set reg else set ps)"
    using build_processed[OF b] unfolding set_initial_queue by simp
  have ok: "edges_ok s" using build_edges_ok[OF b] .
  show dn: "distinct (node_names (graph s))" using ok by (simp add: edges_ok_def)
  show de: "distinct (map pair_of (edges (graph s)))" using ok by (simp add: edges_ok_def)
  have seen: "edges_seen s = set (map pair_of (edges (graph s)))" using ok by (simp add: edges_ok_def)
  show "\<forall>x\<in>set p. \<forall>t. tasks_get reg x = Some t \<longrightarrow>
             ((\<not> truthy (subtask_of t) \<or> st) \<longrightarrow> count_list (node_names (graph s)) x = 1)
             \<and> (\<forall>d\<in>set (deps t). \<exists>u v. node st reg x = Inr u \<and> node st reg d = Inr v
                   \<and> (u \<noteq> v \<longrightarrow> count_list (map pair_of (edges (graph s))) (u, v) = 1))"
  proof (intro ballI allI impI conjI)
    fix x t assume x: "x \<in> set p" and t: "tasks_get reg x = Some t"
    have sv: "served st reg s x" using build_serves[OF b] x by blast
    {
      assume "\<not> truthy (subtask_of t) \<or> st"
      then have "x \<in> set (node_names (graph s))" using sv t by (simp add: served_def)
      then show "count_list (node_names (graph s)) x = 1" using dn by (simp add: count_list_distinct)
    }
    fix d assume "d \<in> set (deps t)"
    then obtain u v where uv: "node st reg x = Inr u" "node st reg d = Inr v"
        "u \<noteq> v \<longrightarrow> (u, v) \<in> edges_seen s"
      using sv t unfolding served_def by blast
    have "u \<noteq> v \<longrightarrow> count_list (map pair_of (edges (graph s))) (u, v) = 1"
      using uv(3) de unfolding seen by (simp add: count_list_distinct)
    with uv show "\<exists>u v. node st reg x = Inr u \<and> node st reg d = Inr v
                   \<and> (u \<noteq> v \<longrightarrow> count_list (map pair_of (edges (graph s))) (u, v) = 1)"
      by blast
  qed
  assume "pa = None \<or> pa = Some []"
  then have "name ` set reg \<subseteq> set p"
    using reach by (auto intro: reachable.root)
  then show "set p = name ` set reg" using build_processed_present[OF b] by blast
next
  assume "\<forall>k\<in>reachable reg (case pa of None \<Rightarrow> name ` set reg
                              | Some ps \<Rightarrow> if ps = [] then name ` set reg else set ps).
          tasks_get reg k \<noteq> None"
  then have "\<forall>k\<in>reachable reg (set (initial_queue reg pa)). tasks_get reg k \<noteq> None"
    unfolding set_initial_queue .
  then show "\<exists>p s. build reg st hz pa = Inr (p, s)" by (rule build_succeeds)
qed

theorem traversal_visits_reachable_once_witness:
  "(\<exists>s. build reg_diamond False False (Some [''A'']) = Inr ([''A'', ''B'', ''C'', ''D''], s)
        \<and> node_names (graph s) = [''A'', ''B'', ''C'', ''D'']
        \<and> map pair_of (edges (graph s)) = [(''A'', ''B''), (''A'', ''C''), (''B'', ''D''), (''C'', ''D'')]
        \<and> count_list (node_names (graph s)) ''D'' = 1
        \<and> count_list (map pair_of (edges (graph s))) (''B'', ''D'') = 1
        \<and> count_list (map pair_of (edges (graph s))) (''C'', ''D'') = 1)
   \<and> reachable reg_diamond {''A''} = {''A'', ''B'', ''C'', ''D''}
   \<and> (\<exists>p s. build reg_diamond True False (Some [''A'']) = Inr (p, s))
   \<and> (\<exists>s. build reg_diamond False False (Some [''B'']) = Inr ([''B'', ''D''], s))
   \<and> reachable reg_diamond {''B''} = {''B'', ''D''}
   \<and> (\<exists>s. build reg_three False False None = Inr ([''x'', ''y'', ''z''], s)
        \<and> node_names (graph s) = [''x'', ''y'', ''z''] \<and> edges (graph s) = [])
   \<and> (\<exists>s. build reg_three False False (Some []) = Inr ([''x'', ''y'', ''z''], s)
        \<and> node_names (graph s) = [''x'', ''y'', ''z''] \<and> edges (graph s) = [])
   \<and> (\<exists>p s. build reg_diamond False False None = Inr (p, s)
        \<and> set p = {''A'', ''B'', ''C'', ''D''})
   \<and> reachable reg_three {''x'', ''y'', ''z''} = {''x'', ''y'', ''z''}"
proof -
  let ?x = "build reg_diamond False False (Some [''A''])"
  note inst = traversal_visits_reachable_once[where reg = reg_diamond and st = False
      and hz = False and pa = "Some [''A'']"]
  have "\<not> isl ?x" by code_simp
  then obtain p s where e: "?x = Inr (p, s)" by (cases ?x) auto
  have "fst (projr ?x) = [''A'', ''B'', ''C'', ''D'']" by code_simp
  then have p: "p = [''A'', ''B'', ''C'', ''D'']" by (simp add: e)
  have "node_names (graph (snd (projr ?x))) = [''A'', ''B'', ''C'', ''D'']" by code_simp
  then have n: "node_names (graph s) = [''A'', ''B'', ''C'', ''D'']" by (simp add: e)
  have "map pair_of (edges (graph (snd (projr ?x))))
        = [(''A'', ''B''), (''A'', ''C''), (''B'', ''D''), (''C'', ''D'')]" by code_simp
  then have pairs: "map pair_of (edges (graph s))
        = [(''A'', ''B''), (''A'', ''C''), (''B'', ''D''), (''C'', ''D'')]" by (simp add: e)
  note t = inst[THEN conjunct1, THEN spec, THEN spec, THEN mp, OF e]
  have r: "reachable reg_diamond {''A''} = {''A'', ''B'', ''C'', ''D''}"
    using t p by auto
  have tB: "tasks_get reg_diamond ''B'' = Some (plain_task ''B'' [''D''])"
    by (simp add: tasks_get_def reg_diamond_def plain_task_def)
  have tC: "tasks_get reg_diamond ''C'' = Some (plain_task ''C'' [''D''])"
    by (simp add: tasks_get_def reg_diamond_def plain_task_def)
  have tD: "tasks_get reg_diamond ''D'' = Some (plain_task ''D'' [])"
    by (simp add: tasks_get_def reg_diamond_def plain_task_def)
  have Bp: "''B'' \<in> set p" and Cp: "''C'' \<in> set p" and Dp: "''D'' \<in> set p" using p by simp_all
  have dB: "''D'' \<in> set (deps (plain_task ''B'' [''D'']))" by (simp add: deps_def plain_task_def)
  have dC: "''D'' \<in> set (deps (plain_task ''C'' [''D'']))" by (simp add: deps_def plain_task_def)
  have sD: "\<not> truthy (subtask_of (plain_task ''D'' [])) \<or> False" by (simp add: plain_task_def)
  note per = t[THEN conjunct2, THEN conjunct2, THEN conjunct2, THEN conjunct2, THEN conjunct1]
  have cD: "count_list (node_names (graph s)) ''D'' = 1"
    using per[THEN bspec, OF Dp, THEN spec, THEN mp, OF tD, THEN conjunct1, THEN mp, OF sD] .
  have nB: "node False reg_diamond ''B'' = Inr ''B''" using tB by (simp add: node_def plain_task_def)
  have nC: "node False reg_diamond ''C'' = Inr ''C''" using tC by (simp add: node_def plain_task_def)
  have nD: "node False reg_diamond ''D'' = Inr ''D''" using tD by (simp add: node_def plain_task_def)
  have "\<exists>u v. node False reg_diamond ''B'' = Inr u \<and> node False reg_diamond ''D'' = Inr v
               \<and> (u \<noteq> v \<longrightarrow> count_list (map pair_of (edges (graph s))) (u, v) = 1)"
    using per[THEN bspec, OF Bp, THEN spec, THEN mp, OF tB, THEN conjunct2, THEN bspec, OF dB] .
  then have cBD: "count_list (map pair_of (edges (graph s))) (''B'', ''D'') = 1"
    unfolding nB nD by simp
  have "\<exists>u v. node False reg_diamond ''C'' = Inr u \<and> node False reg_diamond ''D'' = Inr v
               \<and> (u \<noteq> v \<longrightarrow> count_list (map pair_of (edges (graph s))) (u, v) = 1)"
    using per[THEN bspec, OF Cp, THEN spec, THEN mp, OF tC, THEN conjunct2, THEN bspec, OF dC] .
  then have cCD: "count_list (map pair_of (edges (graph s))) (''C'', ''D'') = 1"
    unfolding nC nD by simp
  have present: "\<forall>k\<in>reachable reg_diamond
                      (case Some [''A''] of None \<Rightarrow> name ` set reg_diamond
                       | Some ps \<Rightarrow> if ps = [] then name ` set reg_diamond else set ps).
         tasks_get reg_diamond k \<noteq> None"
    using r by (simp add: tasks_get_def reg_diamond_def plain_task_def)
  note again = traversal_visits_reachable_once[where reg = reg_diamond and st = True
      and hz = False and pa = "Some [''A'']", THEN conjunct2, THEN mp, OF present]
  have first: "\<exists>s. build reg_diamond False False (Some [''A'']) = Inr ([''A'', ''B'', ''C'', ''D''], s)
        \<and> node_names (graph s) = [''A'', ''B'', ''C'', ''D'']
        \<and> map pair_of (edges (graph s)) = [(''A'', ''B''), (''A'', ''C''), (''B'', ''D''), (''C'', ''D'')]
        \<and> count_list (node_names (graph s)) ''D'' = 1
        \<and> count_list (map pair_of (edges (graph s))) (''B'', ''D'') = 1
        \<and> count_list (map pair_of (edges (graph s))) (''C'', ''D'') = 1"
    using e[unfolded p] n pairs cD cBD cCD by (intro exI[of _ s] conjI)

  let ?b = "build reg_diamond False False (Some [''B''])"
  have "\<not> isl ?b" by code_simp
  then obtain pb sb where eb: "?b = Inr (pb, sb)" by (cases ?b) auto
  have "fst (projr ?b) = [''B'', ''D'']" by code_simp
  then have pb: "pb = [''B'', ''D'']" by (simp add: eb)
  note tb = traversal_visits_reachable_once[where reg = reg_diamond and st = False
      and hz = False and pa = "Some [''B'']", THEN conjunct1, THEN spec, THEN spec, THEN mp, OF eb]
  have rb: "reachable reg_diamond {''B''} = {''B'', ''D''}" using tb pb by auto
  have root_b: "\<exists>s. build reg_diamond False False (Some [''B'']) = Inr ([''B'', ''D''], s)"
    using eb[unfolded pb] by (intro exI[of _ sb])

  let ?n = "build reg_three False False None"
  have "\<not> isl ?n" by code_simp
  then obtain pn sn where en: "?n = Inr (pn, sn)" by (cases ?n) auto
  have "fst (projr ?n) = [''x'', ''y'', ''z'']" by code_simp
  then have pn: "pn = [''x'', ''y'', ''z'']" by (simp add: en)
  have "node_names (graph (snd (projr ?n))) = [''x'', ''y'', ''z'']" by code_simp
  then have nn: "node_names (graph sn) = [''x'', ''y'', ''z'']" by (simp add: en)
  have "edges (graph (snd (projr ?n))) = []" by code_simp
  then have edn: "edges (graph sn) = []" by (simp add: en)
  note tn = traversal_visits_reachable_once[where reg = reg_three and st = False
      and hz = False and pa = None, THEN conjunct1, THEN spec, THEN spec, THEN mp, OF en]
  have names3: "name ` set reg_three = {''x'', ''y'', ''z''}"
    by (simp add: reg_three_def plain_task_def)
  have r3: "reachable reg_three {''x'', ''y'', ''z''} = {''x'', ''y'', ''z''}"
    using tn pn names3 by auto
  have none3: "\<exists>s. build reg_three False False None = Inr ([''x'', ''y'', ''z''], s)
        \<and> node_names (graph s) = [''x'', ''y'', ''z''] \<and> edges (graph s) = []"
    using en[unfolded pn] nn edn by (intro exI[of _ sn] conjI)

  let ?m = "build reg_three False False (Some [])"
  have "\<not> isl ?m" by code_simp
  then obtain pm sm where em: "?m = Inr (pm, sm)" by (cases ?m) auto
  have "fst (projr ?m) = [''x'', ''y'', ''z'']" by code_simp
  then have pm: "pm = [''x'', ''y'', ''z'']" by (simp add: em)
  have "node_names (graph (snd (projr ?m))) = [''x'', ''y'', ''z'']" by code_simp
  then have nm: "node_names (graph sm) = [''x'', ''y'', ''z'']" by (simp add: em)
  have "edges (graph (snd (projr ?m))) = []" by code_simp
  then have edm: "edges (graph sm) = []" by (simp add: em)
  have empty3: "\<exists>s. build reg_three False False (Some []) = Inr ([''x'', ''y'', ''z''], s)
        \<and> node_names (graph s) = [''x'', ''y'', ''z''] \<and> edges (graph s) = []"
    using em[unfolded pm] nm edm by (intro exI[of _ sm] conjI)

  let ?d = "build reg_diamond False False None"
  have "\<not> isl ?d" by code_simp
  then obtain pd sd where ed: "?d = Inr (pd, sd)" by (cases ?d) auto
  note td = traversal_visits_reachable_once[where reg = reg_diamond and st = False
      and hz = False and pa = None, THEN conjunct1, THEN spec, THEN spec, THEN mp, OF ed]
  have "set pd = name ` set reg_diamond"
    using td[THEN conjunct2, THEN conjunct2, THEN conjunct2, THEN conjunct2, THEN conjunct2,
             THEN mp, OF disjI1[OF refl]] .
  then have sd: "set pd = {''A'', ''B'', ''C'', ''D''}" by (simp add: reg_diamond_def plain_task_def)
  have whole: "\<exists>p s. build reg_diamond False False None = Inr (p, s)
        \<and> set p = {''A'', ''B'', ''C'', ''D''}"
    using ed sd by (intro exI[of _ pd] exI[of _ sd] conjI)
  show ?thesis using first r again root_b rb none3 empty3 whole r3 by (intro conjI)
qed

section \<open>Facts about collapsed sub-tasks\<close>

lemma node_collapsed:
  assumes "node False reg a = Inr u"
  shows "is_parent reg u \<or> \<not> is_subtask reg u"
proof -
  from assms obtain t where t: "tasks_get reg a = Some t"
    by (cases "tasks_get reg a") (simp_all add: node_def)
  show ?thesis
  proof (cases "truthy (subtask_of t)")
    case True
    then obtain par where par: "subtask_of t = Some par" by (cases "subtask_of t") simp_all
    with assms t True have "u = par" by (simp add: node_def)
    moreover have "t \<in> set reg" using t tasks_get_Some by blast
    ultimately have "is_parent reg u" using True par unfolding is_parent_def by (intro bexI[of _ t]) simp_all
    then show ?thesis by simp
  next
    case False
    with assms t have "u = a" by (simp add: node_def)
    with t False show ?thesis by (simp add: is_subtask_def)
  qed
qed

lemma node_False_value:
  "tasks_get reg x = Some t \<Longrightarrow>
   node False reg x = Inr (if truthy (subtask_of t) then the (subtask_of t) else x)"
  by (simp add: node_def)

lemma populate_collapsed_nodes:
  assumes "populate False reg q p s = Inr (p', s')"
      and "\<forall>n\<in>set (node_names (graph s)). is_parent reg n \<or> \<not> is_subtask reg n"
  shows "\<forall>n\<in>set (node_names (graph s')). is_parent reg n \<or> \<not> is_subtask reg n"
proof (rule populate_preserves[where P = "\<lambda>s::cmd. \<forall>n\<in>set (node_names (graph s)).
                                             is_parent reg n \<or> \<not> is_subtask reg n", OF _ _ assms])
  fix s s' :: cmd and t :: task and d ah :: string
  assume P: "\<forall>n\<in>set (node_names (graph s)). is_parent reg n \<or> \<not> is_subtask reg n"
    and run: "add_edge False reg s (name t) d ah (edge_label reg (name t) d) = Inr s'"
  from run show "\<forall>n\<in>set (node_names (graph s')). is_parent reg n \<or> \<not> is_subtask reg n"
  proof (cases rule: add_edge_cases)
    case same
    then show ?thesis using P by simp
  next
    case (relabel u v nl)
    then show ?thesis using P by (simp add: node_names_def)
  next
    case (new u v)
    then show ?thesis using P node_collapsed[OF new(1)] node_collapsed[OF new(2)] by auto
  qed
next
  fix s :: cmd and t :: task
  assume P: "\<forall>n\<in>set (node_names (graph s)). is_parent reg n \<or> \<not> is_subtask reg n"
    and t: "tasks_get reg (name t) = Some t"
  show "\<forall>n\<in>set (node_names (graph (add_task_node False t s))). is_parent reg n \<or> \<not> is_subtask reg n"
  proof (cases "truthy (subtask_of t)")
    case True
    then show ?thesis using P by (simp add: add_task_node_def)
  next
    case False
    then have "\<not> is_subtask reg (name t)" using t by (simp add: is_subtask_def)
    then show ?thesis using P False by (auto simp: add_task_node_def Let_def)
  qed
qed

lemma build_collapsed_nodes:
  assumes "build reg False hz pa = Inr (p, s)"
  shows "\<forall>n\<in>set (node_names (graph s)). is_parent reg n \<or> \<not> is_subtask reg n"
  using populate_collapsed_nodes[of reg "initial_queue reg pa" "[]" "initial_cmd hz" p s] assms
  by (simp add: build_def initial_cmd_def AGraph_empty_def node_names_def)

lemma edge_ends_are_nodes:
  assumes "build reg st hz pa = Inr (p, s)"
  shows "\<forall>e\<in>set (edges (graph s)).
           source e \<in> set (node_names (graph s)) \<and> sink e \<in> set (node_names (graph s))"
  using build_edges_ok[OF assms] by (auto simp: edges_ok_def pair_of_def)

section \<open>Sub-tasks collapse into their parent\<close>

text \<open>
  Claim C5, as amended. With sub-task display disabled, expanding a sub-task (a task
  whose \<^verbatim>\<open>subtask_of\<close> is present) adds no node. In the built graph a sub-task that no task
  names as its parent in \<^verbatim>\<open>subtask_of\<close> is not a node and not an end point of an edge; so
  when no parent is itself a sub-task (groups are one level deep), no sub-task is a node
  or an end point of an edge. An identity that names a sub-task and occurs in the graph
  occurs there as the parent that some task names. Every processed task resolves to its
  \<^verbatim>\<open>subtask_of\<close> when that is present and to its own identity otherwise, and each of its
  relationships is drawn between the resolved identities of its two ends unless these are
  equal.
\<close>

theorem subtasks_collapse_into_parent:
  assumes "build reg False hz pa = Inr (p, s)"
  shows "(\<forall>t s0. truthy (subtask_of t) \<longrightarrow> add_task_node False t s0 = s0)
         \<and> (\<forall>x\<in>set (node_names (graph s)). is_subtask reg x \<longrightarrow> is_parent reg x)
         \<and> (\<forall>e\<in>set (edges (graph s)).
               (is_subtask reg (source e) \<longrightarrow> is_parent reg (source e))
               \<and> (is_subtask reg (sink e) \<longrightarrow> is_parent reg (sink e)))
         \<and> (\<forall>x\<in>set p. \<forall>t. tasks_get reg x = Some t \<longrightarrow>
               (\<exists>u. node False reg x = Inr u
                  \<and> u = (if truthy (subtask_of t) then the (subtask_of t) else x)
                  \<and> (\<forall>d\<in>set (deps t). \<exists>v. node False reg d = Inr v
                        \<and> (\<forall>t'. tasks_get reg d = Some t' \<longrightarrow>
                              v = (if truthy (subtask_of t') then the (subtask_of t') else d))
                        \<and> (u \<noteq> v \<longrightarrow> (u, v) \<in> set (map pair_of (edges (graph s)))))))
         \<and> (\<forall>x. is_subtask reg x \<and> \<not> is_parent reg x \<longrightarrow>
               x \<notin> set (node_names (graph s))
               \<and> (\<forall>e\<in>set (edges (graph s)). source e \<noteq> x \<and> sink e \<noteq> x))
         \<and> ((\<forall>t\<in>set reg. truthy (subtask_of t) \<longrightarrow> \<not> is_subtask reg (the (subtask_of t))) \<longrightarrow>
               (\<forall>x. is_subtask reg x \<longrightarrow>
                  x \<notin> set (node_names (graph s))
                  \<and> (\<forall>e\<in>set (edges (graph s)). source e \<noteq> x \<and> sink e \<noteq> x)))"
proof (intro conjI)
  show "\<forall>t s0. truthy (subtask_of t) \<longrightarrow> add_task_node False t s0 = s0"
    by (simp add: add_task_node_def)
next
  show "\<forall>x\<in>set (node_names (graph s)). is_subtask reg x \<longrightarrow> is_parent reg x"
    using build_collapsed_nodes[OF assms] by blast
next
  show "\<forall>e\<in>set (edges (graph s)).
               (is_subtask reg (source e) \<longrightarrow> is_parent reg (source e))
               \<and> (is_subtask reg (sink e) \<longrightarrow> is_parent reg (sink e))"
    using build_collapsed_nodes[OF assms] edge_ends_are_nodes[OF assms] by blast
next
  show "\<forall>x. is_subtask reg x \<and> \<not> is_parent reg x \<longrightarrow>
               x \<notin> set (node_names (graph s))
               \<and> (\<forall>e\<in>set (edges (graph s)). source e \<noteq> x \<and> sink e \<noteq> x)"
    using build_collapsed_nodes[OF assms] edge_ends_are_nodes[OF assms] by blast
next
  show "(\<forall>t\<in>set reg. truthy (subtask_of t) \<longrightarrow> \<not> is_subtask reg (the (subtask_of t))) \<longrightarrow>
               (\<forall>x. is_subtask reg x \<longrightarrow>
                  x \<notin> set (node_names (graph s))
                  \<and> (\<forall>e\<in>set (edges (graph s)). source e \<noteq> x \<and> sink e \<noteq> x))"
  proof (intro impI allI)
    fix x
    assume one: "\<forall>t\<in>set reg. truthy (subtask_of t) \<longrightarrow> \<not> is_subtask reg (the (subtask_of t))"
      and sub: "is_subtask reg x"
    have "\<not> is_parent reg x"
    proof
      assume "is_parent reg x"
      then obtain t where "t \<in> set reg" "truthy (subtask_of t)" "subtask_of t = Some x"
        unfolding is_parent_def by blast
      with one sub show False by force
    qed
    with sub show "x \<notin> set (node_names (graph s))
                  \<and> (\<forall>e\<in>set (edges (graph s)). source e \<noteq> x \<and> sink e \<noteq> x)"
      using build_collapsed_nodes[OF assms] edge_ends_are_nodes[OF assms] by blast
  qed
next
  show "\<forall>x\<in>set p. \<forall>t. tasks_get reg x = Some t \<longrightarrow>
               (\<exists>u. node False reg x = Inr u
                  \<and> u = (if truthy (subtask_of t) then the (subtask_of t) else x)
                  \<and> (\<forall>d\<in>set (deps t). \<exists>v. node False reg d = Inr v
                        \<and> (\<forall>t'. tasks_get reg d = Some t' \<longrightarrow>
                              v = (if truthy (subtask_of t') then the (subtask_of t') else d))
                        \<and> (u \<noteq> v \<longrightarrow> (u, v) \<in> set (map pair_of (edges (graph s))))))"
  proof (intro ballI allI impI)
  fix x t assume x: "x \<in> set p" and t: "tasks_get reg x = Some t"
  have ok: "edges_ok s" using build_edges_ok[OF assms] .
  have seen: "edges_seen s = set (map pair_of (edges (graph s)))" using ok by (simp add: edges_ok_def)
  have sv: "served False reg s x" using build_serves[OF assms] x by blast
  let ?u = "if truthy (subtask_of t) then the (subtask_of t) else x"
  have u: "node False reg x = Inr ?u" using node_False_value[OF t] .
  have "\<forall>d\<in>set (deps t). \<exists>v. node False reg d = Inr v
            \<and> (\<forall>t'. tasks_get reg d = Some t' \<longrightarrow>
                  v = (if truthy (subtask_of t') then the (subtask_of t') else d))
            \<and> (?u \<noteq> v \<longrightarrow> (?u, v) \<in> set (map pair_of (edges (graph s))))"
  proof
    fix d assume "d \<in> set (deps t)"
    then obtain u' v where uv: "node False reg x = Inr u'" "node False reg d = Inr v"
        "u' \<noteq> v \<longrightarrow> (u', v) \<in> edges_seen s"
      using sv t unfolding served_def by blast
    have "u' = ?u" using uv(1) u by simp
    moreover have "\<forall>t'. tasks_get reg d = Some t' \<longrightarrow>
                  v = (if truthy (subtask_of t') then the (subtask_of t') else d)"
      using uv(2) node_False_value[of reg d] by auto
    ultimately show "\<exists>v. node False reg d = Inr v
            \<and> (\<forall>t'. tasks_get reg d = Some t' \<longrightarrow>
                  v = (if truthy (subtask_of t') then the (subtask_of t') else d))
            \<and> (?u \<noteq> v \<longrightarrow> (?u, v) \<in> set (map pair_of (edges (graph s))))"
      using uv(2,3) unfolding seen by blast
  qed
  with u show "\<exists>u. node False reg x = Inr u
                  \<and> u = (if truthy (subtask_of t) then the (subtask_of t) else x)
                  \<and> (\<forall>d\<in>set (deps t). \<exists>v. node False reg d = Inr v
                        \<and> (\<forall>t'. tasks_get reg d = Some t' \<longrightarrow>
                              v = (if truthy (subtask_of t') then the (subtask_of t') else d))
                        \<and> (u \<noteq> v \<longrightarrow> (u, v) \<in> set (map pair_of (edges (graph s)))))"
    by blast
  qed
qed

theorem subtasks_collapse_into_parent_witness:
  "(\<exists>p s. build reg_group False False (Some [''P'']) = Inr (p, s)
        \<and> p = [''P'', ''P:a'', ''P:b'', ''Q'']
        \<and> node_names (graph s) = [''P'', ''Q'']
        \<and> ''P:a'' \<notin> set (node_names (graph s))
        \<and> (\<forall>e\<in>set (edges (graph s)). source e \<noteq> ''P:a'' \<and> sink e \<noteq> ''P:a'')
        \<and> map pair_of (edges (graph s)) = [(''P'', ''Q'')])
   \<and> is_subtask reg_group ''P:a'' \<and> \<not> is_parent reg_group ''P:a''
   \<and> node False reg_group ''P:a'' = Inr ''P''
   \<and> truthy (subtask_of (hd (tl reg_group)))
   \<and> add_task_node False (hd (tl reg_group)) group_state = group_state
   \<and> \<not> is_subtask reg_group ''P'' \<and> is_subtask reg_group ''P:b''
   \<and> (\<exists>p s. build reg_group False False None = Inr (p, s)
        \<and> ''P:a'' \<notin> set (node_names (graph s)) \<and> ''P:b'' \<notin> set (node_names (graph s)))"
proof -
  let ?x = "build reg_group False False (Some [''P''])"
  have "\<not> isl ?x" by code_simp
  then obtain p s where e: "?x = Inr (p, s)" by (cases ?x) auto
  have "fst (projr ?x) = [''P'', ''P:a'', ''P:b'', ''Q'']" by code_simp
  then have p: "p = [''P'', ''P:a'', ''P:b'', ''Q'']" by (simp add: e)
  have "node_names (graph (snd (projr ?x))) = [''P'', ''Q'']" by code_simp
  then have n: "node_names (graph s) = [''P'', ''Q'']" by (simp add: e)
  have "map pair_of (edges (graph (snd (projr ?x)))) = [(''P'', ''Q'')]" by code_simp
  then have pairs: "map pair_of (edges (graph s)) = [(''P'', ''Q'')]" by (simp add: e)
  have ta: "tasks_get reg_group ''P:a'' = Some (hd (tl reg_group))"
    by (simp add: tasks_get_def reg_group_def)
  have sub: "is_subtask reg_group ''P:a''"
    by (simp add: is_subtask_def tasks_get_def reg_group_def)
  have par: "\<not> is_parent reg_group ''P:a''"
    by (simp add: is_parent_def reg_group_def)
  note t = subtasks_collapse_into_parent[OF e]
  have a1: "''P:a'' \<notin> set (node_names (graph s))"
  proof
    assume "''P:a'' \<in> set (node_names (graph s))"
    from t[THEN conjunct2, THEN conjunct1, THEN bspec, OF this, THEN mp, OF sub] par
    show False by simp
  qed
  have a2: "\<forall>e\<in>set (edges (graph s)). source e \<noteq> ''P:a'' \<and> sink e \<noteq> ''P:a''"
  proof (intro ballI conjI notI)
    fix e assume e: "e \<in> set (edges (graph s))"
    note k = t[THEN conjunct2, THEN conjunct2, THEN conjunct1, THEN bspec, OF e]
    {
      assume "source e = ''P:a''"
      with k sub par show False by simp
    }
    {
      assume "sink e = ''P:a''"
      with k sub par show False by simp
    }
  qed
  have mem: "''P:a'' \<in> set p" using p by simp
  from t[THEN conjunct2, THEN conjunct2, THEN conjunct2, THEN conjunct1,
         THEN bspec, OF mem, THEN spec, THEN mp, OF ta]
  have r: "node False reg_group ''P:a'' = Inr ''P''" by (auto simp: reg_group_def)
  have first: "\<exists>p s. build reg_group False False (Some [''P'']) = Inr (p, s)
        \<and> p = [''P'', ''P:a'', ''P:b'', ''Q'']
        \<and> node_names (graph s) = [''P'', ''Q'']
        \<and> ''P:a'' \<notin> set (node_names (graph s))
        \<and> (\<forall>e\<in>set (edges (graph s)). source e \<noteq> ''P:a'' \<and> sink e \<noteq> ''P:a'')
        \<and> map pair_of (edges (graph s)) = [(''P'', ''Q'')]"
    using e p n a1 a2 pairs by (intro exI[of _ p] exI[of _ s] conjI)
  have tr: "truthy (subtask_of (hd (tl reg_group)))" by (simp add: reg_group_def)
  note stay = t[THEN conjunct1, THEN spec, THEN spec, THEN mp, OF tr, of group_state]
  have direct: "''P:a'' \<notin> set (node_names (graph s))
               \<and> (\<forall>e\<in>set (edges (graph s)). source e \<noteq> ''P:a'' \<and> sink e \<noteq> ''P:a'')"
    using t[THEN conjunct2, THEN conjunct2, THEN conjunct2, THEN conjunct2, THEN conjunct1,
            THEN spec, THEN mp, OF conjI[OF sub par]] .
  have nP: "\<not> is_subtask reg_group ''P''"
    by (simp add: is_subtask_def tasks_get_def reg_group_def)
  have sb: "is_subtask reg_group ''P:b''"
    by (simp add: is_subtask_def tasks_get_def reg_group_def)
  have one: "\<forall>t\<in>set reg_group. truthy (subtask_of t) \<longrightarrow> \<not> is_subtask reg_group (the (subtask_of t))"
    using nP by (simp add: reg_group_def)
  let ?w = "build reg_group False False None"
  have "\<not> isl ?w" by code_simp
  then obtain pw sw where ew: "?w = Inr (pw, sw)" by (cases ?w) auto
  note lvl = subtasks_collapse_into_parent[OF ew, THEN conjunct2, THEN conjunct2, THEN conjunct2,
               THEN conjunct2, THEN conjunct2, THEN mp, OF one]
  have wa: "''P:a'' \<notin> set (node_names (graph sw))"
    using lvl[THEN spec, THEN mp, OF sub] by (rule conjunct1)
  have wb: "''P:b'' \<notin> set (node_names (graph sw))"
    using lvl[THEN spec, THEN mp, OF sb] by (rule conjunct1)
  have whole: "\<exists>p s. build reg_group False False None = Inr (p, s)
        \<and> ''P:a'' \<notin> set (node_names (graph s)) \<and> ''P:b'' \<notin> set (node_names (graph s))"
    using ew wa wb by (intro exI[of _ pw] exI[of _ sw] conjI)
  show ?thesis using first sub par r tr stay nP sb whole by (intro conjI)
qed

text \<open>
  The claim as it was stated fails for a group two levels deep. \<^verbatim>\<open>S:a\<close> is a sub-task of
  \<^verbatim>\<open>S\<close> and the parent of \<^verbatim>\<open>S:a:x\<close>; the relationship of \<^verbatim>\<open>S:a:x\<close> to \<^verbatim>\<open>Q\<close> is drawn from
  the resolved identity \<^verbatim>\<open>S:a\<close>, and the graph library creates the end points of an edge
  as nodes, so the sub-task \<^verbatim>\<open>S:a\<close> is a node of the built graph.
\<close>

theorem subtask_node_counterexample:
  "subtask_of (hd (tl reg_two)) = Some ''S''
   \<and> tasks_get reg_two ''S:a'' = Some (hd (tl reg_two))
   \<and> is_subtask reg_two ''S:a''
   \<and> build reg_two False False (Some [''S''])
       = Inr ([''S'', ''S:a'', ''S:a:x'', ''Q''],
              \<lparr>graph = \<lparr>rankdir = None,
                         nodes = [\<lparr>node_name = ''S'', peripheries = Some ''2''\<rparr>,
                                  \<lparr>node_name = ''S:a'', peripheries = None\<rparr>,
                                  \<lparr>node_name = ''Q'', peripheries = None\<rparr>],
                         edges = [\<lparr>source = ''S'', sink = ''S:a'', arrowhead = '''', label = None\<rparr>,
                                  \<lparr>source = ''S:a'', sink = ''Q'', arrowhead = '''', label = None\<rparr>]\<rparr>,
               edges_seen = {(''S'', ''S:a''), (''S:a'', ''Q'')}\<rparr>)
   \<and> ''S:a'' \<in> set (node_names (graph (snd (projr (build reg_two False False (Some [''S'']))))))"
proof -
  have a: "subtask_of (hd (tl reg_two)) = Some ''S''" by (simp add: reg_two_def)
  have b: "tasks_get reg_two ''S:a'' = Some (hd (tl reg_two))"
    by (simp add: tasks_get_def reg_two_def)
  have c: "is_subtask reg_two ''S:a''" by (simp add: is_subtask_def tasks_get_def reg_two_def)
  have d: "build reg_two False False (Some [''S''])
       = Inr ([''S'', ''S:a'', ''S:a:x'', ''Q''],
              \<lparr>graph = \<lparr>rankdir = None,
                         nodes = [\<lparr>node_name = ''S'', peripheries = Some ''2''\<rparr>,
                                  \<lparr>node_name = ''S:a'', peripheries = None\<rparr>,
                                  \<lparr>node_name = ''Q'', peripheries = None\<rparr>],
                         edges = [\<lparr>source = ''S'', sink = ''S:a'', arrowhead = '''', label = None\<rparr>,
                                  \<lparr>source = ''S:a'', sink = ''Q'', arrowhead = '''', label = None\<rparr>]\<rparr>,
               edges_seen = {(''S'', ''S:a''), (''S:a'', ''Q'')}\<rparr>)"
    by code_simp
  have e: "''S:a'' \<in> set (node_names (graph (snd (projr (build reg_two False False (Some [''S'']))))))"
    unfolding d by (simp add: node_names_def)
  show ?thesis using a b c d e by (intro conjI)
qed

end
